theory Spec2Isabelle
  imports Main "HOL-Library.Sublist"
begin

section \<open>Python values used by the anonymizer\<close>

text \<open>
  A Python \<open>str\<close> is modelled as a HOL \<open>string\<close>, one \<open>char\<close> per code point.
  The character classes below (\<open>isdigit\<close>, whitespace, \<open>upper\<close>) are those of Python
  on ASCII code points; statements that depend on a character class are made for
  ASCII texts (\<open>ascii_text\<close>). Offsets are Python integers, hence \<open>int\<close>.
\<close>

text \<open>
  The exceptions that can leave the anonymizer: \<open>ValueError\<close> (raised by \<open>int\<close>, by
  unpacking a \<open>split\<close> and by \<open>zip(strict=True)\<close>) and whatever an external
  provider (phone matcher, spaCy pipeline) raises.
\<close>

datatype error = ValueError | ProviderError

subsection \<open>Slicing\<close>

text \<open>
  \<open>s[lo:hi]\<close> never raises: a negative bound counts from the end, and every bound is
  clamped into \<open>0..len(s)\<close> before any character is read.
\<close>

definition adjust :: "nat \<Rightarrow> int \<Rightarrow> nat" where
  "adjust n i = (if i < 0 then nat (max 0 (int n + i)) else min (nat i) n)"

definition slice :: "string \<Rightarrow> int \<Rightarrow> int \<Rightarrow> string" where
  "slice s lo hi = (let a = adjust (length s) lo; b = adjust (length s) hi in take (b - a) (drop a s))"

definition slice_from :: "string \<Rightarrow> int \<Rightarrow> string" where
  "slice_from s lo = drop (adjust (length s) lo) s"

definition slice_to :: "string \<Rightarrow> int \<Rightarrow> string" where
  "slice_to s hi = take (adjust (length s) hi) s"

subsection \<open>Characters, \<open>str\<close> and \<open>int\<close> conversions\<close>

text \<open>
  An ASCII text: every character is printable ASCII or one of the whitespace
  characters tab, line feed, vertical tab, form feed, carriage return.
\<close>

definition ascii_text :: "string \<Rightarrow> bool" where
  "ascii_text s =
     list_all (\<lambda>c. (32 \<le> (of_char c :: nat) \<and> (of_char c :: nat) < 127) \<or>
                   c \<in> set [CHR 0x09, CHR 0x0A, CHR 0x0B, CHR 0x0C, CHR 0x0D]) s"

text \<open>\<open>ch.isdigit()\<close> on an ASCII character, and the value \<open>int(ch)\<close> of a decimal digit.\<close>

definition isdigit :: "char \<Rightarrow> bool" where
  "isdigit c = (c \<in> set ''0123456789'')"

definition digit_val :: "char \<Rightarrow> nat" where
  "digit_val c = of_char c - 48"

text \<open>\<open>s.isdigit()\<close> on a string: false on the empty string.\<close>

definition str_isdigit :: "string \<Rightarrow> bool" where
  "str_isdigit s = (s \<noteq> [] \<and> list_all isdigit s)"

text \<open>
  The ASCII characters of the class \<open>\s\<close> of the pattern in \<open>_strip\<close>, and the
  characters that \<open>int\<close> strips from both ends of an ASCII string: in both cases
  space, tab, line feed, vertical tab, form feed and carriage return.
\<close>

definition is_space :: "char \<Rightarrow> bool" where
  "is_space c = (c \<in> set [CHR '' '', CHR 0x09, CHR 0x0A, CHR 0x0B, CHR 0x0C, CHR 0x0D])"

definition py_isspace :: "char \<Rightarrow> bool" where
  "py_isspace c = (c \<in> set [CHR '' '', CHR 0x09, CHR 0x0A, CHR 0x0B, CHR 0x0C, CHR 0x0D])"

text \<open>\<open>s.upper()\<close>.\<close>

definition upper_char :: "char \<Rightarrow> char" where
  "upper_char c =
     (case map_of (zip ''abcdefghijklmnopqrstuvwxyz'' ''ABCDEFGHIJKLMNOPQRSTUVWXYZ'') c of
        Some u \<Rightarrow> u | None \<Rightarrow> c)"

definition upper :: "string \<Rightarrow> string" where
  "upper s = map upper_char s"

text \<open>\<open>str(n)\<close> for an integer.\<close>

function str_nat :: "nat \<Rightarrow> string" where
  "str_nat n = (if n < 10 then [''0123456789'' ! n] else str_nat (n div 10) @ [''0123456789'' ! (n mod 10)])"
  by pat_completeness auto
termination
  by (relation "measure id") auto

definition str_int :: "int \<Rightarrow> string" where
  "str_int i = (if i < 0 then CHR ''-'' # str_nat (nat (- i)) else str_nat (nat i))"

text \<open>
  \<open>int(s)\<close> in base 10: surrounding whitespace is stripped, one sign is allowed, then
  come decimal digits, where single underscores may separate digits. Anything else
  raises \<open>ValueError\<close>. In \<open>parse_digits\<close> the flag says that the previous character
  was a digit.
\<close>

fun parse_digits :: "bool \<Rightarrow> nat \<Rightarrow> string \<Rightarrow> error + nat" where
  "parse_digits prev acc [] = (if prev then Inr acc else Inl ValueError)"
| "parse_digits prev acc (c # cs) =
     (if isdigit c then parse_digits True (acc * 10 + digit_val c) cs
      else if c = CHR ''_'' \<and> prev then parse_digits False acc cs
      else Inl ValueError)"

definition py_int :: "string \<Rightarrow> error + int" where
  "py_int s =
     (let t = rev (dropWhile py_isspace (rev (dropWhile py_isspace s))) in
      case t of
        [] \<Rightarrow> Inl ValueError
      | c # cs \<Rightarrow>
          if c = CHR ''-'' then map_sum id (\<lambda>n. - int n) (parse_digits False 0 cs)
          else if c = CHR ''+'' then map_sum id int (parse_digits False 0 cs)
          else map_sum id int (parse_digits False 0 t))"

text \<open>A list comprehension whose element expression may raise.\<close>

fun map_err :: "('a \<Rightarrow> error + 'b) \<Rightarrow> 'a list \<Rightarrow> error + 'b list" where
  "map_err f [] = Inr []"
| "map_err f (x # xs) =
     (case f x of Inl e \<Rightarrow> Inl e
      | Inr y \<Rightarrow> (case map_err f xs of Inl e \<Rightarrow> Inl e | Inr ys \<Rightarrow> Inr (y # ys)))"

section \<open>Validation algorithms\<close>

text \<open>\<open>_strip\<close>: \<open>regex.sub(r"[\s-]", "", acc)\<close>.\<close>

definition strip :: "string \<Rightarrow> string" where
  "strip acc = filter (\<lambda>c. \<not> (is_space c \<or> c = CHR ''-'')) acc"

text \<open>\<open>_alpha_to_num = {chr(i + 55): str(i) for i in range(10, 36)}\<close>\<close>

definition alpha_to_num :: "char \<rightharpoonup> string" where
  "alpha_to_num = map_of (map (\<lambda>i. (char_of (i + 55), str_nat i)) [10..<36])"

definition iban_to_numeric :: "string \<Rightarrow> string" where
  "iban_to_numeric iban = concat (map (\<lambda>ch. case alpha_to_num ch of Some v \<Rightarrow> v | None \<Rightarrow> [ch]) iban)"

definition is_valid_iban :: "string \<Rightarrow> error + bool" where
  "is_valid_iban iban =
     (let raw = upper (strip iban) in
      if \<not> prefix ''FR'' raw \<or> length raw \<noteq> 27 then Inr False
      else let rearr = slice_from raw 4 @ slice_to raw 4 in
        case py_int (iban_to_numeric rearr) of
          Inl e \<Rightarrow> Inl e
        | Inr num \<Rightarrow> Inr (num mod 97 = 1))"

text \<open>
  The loop of \<open>_is_valid_luhn\<close> over \<open>enumerate(digits)\<close>: \<open>i\<close> is the index of the
  next digit and \<open>check_sum\<close> the running sum.
\<close>

fun luhn_loop :: "nat \<Rightarrow> int list \<Rightarrow> int \<Rightarrow> int" where
  "luhn_loop i [] check_sum = check_sum"
| "luhn_loop i (d # ds) check_sum =
     luhn_loop (i + 1) ds
       (check_sum + (if i mod 2 \<noteq> 0 then (if d * 2 > 9 then d * 2 - 9 else d * 2) else d))"

definition is_valid_luhn :: "string \<Rightarrow> error + bool" where
  "is_valid_luhn number =
     (case map_err (\<lambda>d. py_int [d]) (filter isdigit number) of
        Inl e \<Rightarrow> Inl e
      | Inr ds \<Rightarrow> Inr (luhn_loop 0 (rev ds) 0 mod 10 = 0))"

definition is_valid_nir :: "string \<Rightarrow> error + bool" where
  "is_valid_nir nir =
     (let num = strip nir in
      if length num \<noteq> 15 \<or> \<not> str_isdigit num then Inr False
      else case py_int (slice_from num (- 2)) of
             Inl e \<Rightarrow> Inl e
           | Inr key \<Rightarrow>
               (case py_int (slice_to num (- 2)) of
                  Inl e \<Rightarrow> Inl e
                | Inr n \<Rightarrow> Inr (97 - n mod 97 = key)))"

section \<open>Masking transforms\<close>

text \<open>\<open>"c" * n\<close>: empty when \<open>n\<close> is not positive.\<close>

definition repeat :: "char \<Rightarrow> int \<Rightarrow> string" where
  "repeat c n = replicate (nat n) c"

text \<open>
  \<open>_mask_email\<close>: \<open>local, domain = x.split("@", 1)\<close> cuts at the first \<open>@\<close>; without
  one the unpacking raises \<open>ValueError\<close>. \<open>local[0]\<close> and \<open>local[-1]\<close> are read only
  when \<open>len(local) > 2\<close>, hence in range.
\<close>

definition mask_email :: "string \<Rightarrow> error + string" where
  "mask_email x =
     (if CHR ''@'' \<notin> set x then Inl ValueError
      else let local = takeWhile (\<lambda>c. c \<noteq> CHR ''@'') x;
               domain = tl (dropWhile (\<lambda>c. c \<noteq> CHR ''@'') x);
               masked_local =
                 (if length local \<le> 2 then repeat (CHR ''*'') (int (length local))
                  else hd local # repeat (CHR ''*'') (int (length local) - 2) @ [last local])
           in Inr (masked_local @ ''@'' @ domain))"

definition mask_card :: "string \<Rightarrow> string" where
  "mask_card x = (let digits = strip x in repeat (CHR ''*'') (int (length digits) - 4) @ slice_from digits (- 4))"

definition mask_phone :: "string \<Rightarrow> string" where
  "mask_phone x = (let digits = strip x in repeat (CHR ''X'') (int (length digits) - 2) @ slice_from digits (- 2))"

definition mask_iban :: "string \<Rightarrow> string" where
  "mask_iban x = (let tail = slice_from (strip x) (- 4) in ''FR************'' @ tail)"

definition mask_rib :: "string \<Rightarrow> string" where
  "mask_rib x = ''************'' @ slice_from x (- 4)"

text \<open>
  \<open>_mask_date\<close>: the date parser is external; \<open>dt_parse x\<close> is the year it finds, or
  \<open>None\<close> when it raises, which the \<open>except\<close> clause turns into \<open>DATE\<close>.
\<close>

definition mask_date :: "(string \<Rightarrow> int option) \<Rightarrow> string \<Rightarrow> string" where
  "mask_date dt_parse x = (case dt_parse x of Some year \<Rightarrow> ''XX/XX/'' @ str_int year | None \<Rightarrow> ''DATE'')"

definition mask_nir :: "string \<Rightarrow> string" where
  "mask_nir x = ''***********'' @ slice_from x (- 4)"

definition mask_passport :: "string \<Rightarrow> string" where
  "mask_passport x = slice_to x 2 @ repeat (CHR ''*'') (int (length x) - 4) @ slice_from x (- 2)"

definition mask_license :: "string \<Rightarrow> string" where
  "mask_license x = ''PERMIS********''"

section \<open>The detector registry\<close>

text \<open>
  The eleven compiled patterns. The regular-expression engine is external: what
  \<open>pat.finditer(text)\<close> yields is a parameter of the model, a list of
  \<open>(m.start(), m.end())\<close> in the order of the matches, and \<open>m.group(0)\<close> is the
  slice of the text between them.
\<close>

datatype pattern =
  addr_pat | iban_pat | rib_pat | date_num_pat | date_alpha_pat | passport_pat |
  permis_pat | plate_pat | card_pat | email_pat | nir_pat

type_synonym masker = "string \<Rightarrow> error + string"
type_synonym validator = "string \<Rightarrow> error + bool"

text \<open>\<open>_PATTERNS\<close>, in the order of the source.\<close>

definition PATTERNS :: "(string \<Rightarrow> int option) \<Rightarrow> (pattern \<times> masker \<times> validator option) list" where
  "PATTERNS dt_parse =
     [(addr_pat, \<lambda>_. Inr ''ADRESSE'', None),
      (iban_pat, \<lambda>x. Inr (mask_iban x), Some is_valid_iban),
      (rib_pat, \<lambda>x. Inr (mask_rib x), None),
      (date_num_pat, \<lambda>x. Inr (mask_date dt_parse x), None),
      (date_alpha_pat, \<lambda>x. Inr (mask_date dt_parse x), None),
      (passport_pat, \<lambda>x. Inr (mask_passport x), None),
      (permis_pat, \<lambda>x. Inr (mask_license x), None),
      (plate_pat, \<lambda>_. Inr ''IMMATRICULATION'', None),
      (card_pat, \<lambda>x. Inr (mask_card x), Some is_valid_luhn),
      (email_pat, mask_email, None),
      (nir_pat, \<lambda>x. Inr (mask_nir x), Some is_valid_nir)]"

section \<open>Replacement spans and the reconstruction\<close>

text \<open>\<open>class _Repl(NamedTuple): start: int; end: int; repl: str\<close>\<close>

record Repl =
  start :: int
  end_r :: int
  repl :: string

text \<open>
  The loop of \<open>_apply\<close>: \<open>out\<close> is the list of fragments appended so far and
  \<open>cursor\<close> the offset reached in the text.
\<close>

fun apply_loop :: "string \<Rightarrow> Repl list \<Rightarrow> string list \<Rightarrow> int \<Rightarrow> string list \<times> int" where
  "apply_loop text [] out cursor = (out, cursor)"
| "apply_loop text (r # rs) out cursor =
     (if start r < cursor then apply_loop text rs out cursor
      else apply_loop text rs (out @ [slice text cursor (start r), repl r]) (end_r r))"

text \<open>\<open>_apply\<close>; \<open>list.sort(key=...)\<close> is a stable sort, as \<open>sort_key\<close> is.\<close>

definition apply_repls :: "string \<Rightarrow> Repl list \<Rightarrow> string" where
  "apply_repls text repls =
     (if repls = [] then text
      else case apply_loop text (sort_key start repls) [] 0 of
             (out, cursor) \<Rightarrow> concat (out @ [slice_from text cursor]))"

section \<open>External providers and span collection\<close>

text \<open>
  A match of \<open>phonenumbers.PhoneNumberMatcher\<close>: its offsets and the verdict of
  \<open>is_possible_number\<close> on its number. An entity of a spaCy document: \<open>label_\<close>,
  \<open>text\<close>, \<open>start_char\<close>, \<open>end_char\<close>.
\<close>

record phone_match =
  m_start :: int
  m_end :: int
  is_possible_number :: bool

record ent =
  ent_label :: string
  ent_text :: string
  start_char :: int
  end_char :: int

text \<open>
  Everything the anonymizer calls outside itself. A provider call returns its result
  or raises. \<open>nlp_pipe texts\<close> is the generator \<open>_nlp.pipe(texts, batch_size=16)\<close>:
  the documents in the order it yields them, an \<open>Inl\<close> where pulling the next
  document raises.
\<close>

record env =
  finditer :: "pattern \<Rightarrow> string \<Rightarrow> (int \<times> int) list"
  dt_parse :: "string \<Rightarrow> int option"
  PhoneNumberMatcher :: "string \<Rightarrow> error + phone_match list"
  nlp :: "string \<Rightarrow> error + ent list"
  nlp_pipe :: "string list \<Rightarrow> (error + ent list) list"

text \<open>
  \<open>_gather_regex\<close>: the inner loop over the matches of one rule and the outer loop
  over the rules, both appending to \<open>out\<close>.
\<close>

fun gather_matches ::
  "string \<Rightarrow> masker \<Rightarrow> validator option \<Rightarrow> (int \<times> int) list \<Rightarrow> Repl list \<Rightarrow> error + Repl list" where
  "gather_matches text masker validator [] out = Inr out"
| "gather_matches text masker validator ((s, e) # ms) out =
     (case (case validator of Some v \<Rightarrow> v (slice text s e) | None \<Rightarrow> Inr True) of
        Inl err \<Rightarrow> Inl err
      | Inr val_ok \<Rightarrow>
          if val_ok then
            (case masker (slice text s e) of
               Inl err \<Rightarrow> Inl err
             | Inr m \<Rightarrow> gather_matches text masker validator ms (out @ [\<lparr>start = s, end_r = e, repl = m\<rparr>]))
          else gather_matches text masker validator ms out)"

fun gather_rules ::
  "(pattern \<Rightarrow> string \<Rightarrow> (int \<times> int) list) \<Rightarrow> string \<Rightarrow>
   (pattern \<times> masker \<times> validator option) list \<Rightarrow> Repl list \<Rightarrow> error + Repl list" where
  "gather_rules fi text [] out = Inr out"
| "gather_rules fi text ((pat, masker, validator) # rules) out =
     (case gather_matches text masker validator (fi pat text) out of
        Inl err \<Rightarrow> Inl err
      | Inr out' \<Rightarrow> gather_rules fi text rules out')"

definition gather_regex :: "env \<Rightarrow> string \<Rightarrow> error + Repl list" where
  "gather_regex E text = gather_rules (finditer E) text (PATTERNS (dt_parse E)) []"

text \<open>\<open>_gather_phones\<close>\<close>

fun phones_loop :: "string \<Rightarrow> phone_match list \<Rightarrow> Repl list \<Rightarrow> Repl list" where
  "phones_loop text [] out = out"
| "phones_loop text (m # ms) out =
     (if \<not> is_possible_number m then phones_loop text ms out
      else phones_loop text ms
             (out @ [\<lparr>start = m_start m, end_r = m_end m,
                      repl = mask_phone (slice text (m_start m) (m_end m))\<rparr>]))"

definition gather_phones :: "env \<Rightarrow> string \<Rightarrow> error + Repl list" where
  "gather_phones E text =
     (case PhoneNumberMatcher E text of Inl err \<Rightarrow> Inl err | Inr ms \<Rightarrow> Inr (phones_loop text ms []))"

text \<open>
  \<open>_gather_person\<close>; \<open>ent.text[0]\<close> is read only when \<open>len(ent.text) > 1\<close>, hence in
  range.
\<close>

fun person_loop :: "ent list \<Rightarrow> Repl list \<Rightarrow> Repl list" where
  "person_loop [] out = out"
| "person_loop (e # es) out =
     (if ent_label e = ''PER'' then
        person_loop es
          (out @ [\<lparr>start = start_char e, end_r = end_char e,
                   repl = (if length (ent_text e) > 1
                           then hd (ent_text e) # repeat (CHR ''*'') (int (length (ent_text e)) - 1)
                           else ''*'')\<rparr>])
      else person_loop es out)"

definition gather_person :: "ent list \<Rightarrow> Repl list" where
  "gather_person doc = person_loop doc []"

section \<open>The public operations\<close>

definition anonymize_all :: "env \<Rightarrow> string \<Rightarrow> error + string" where
  "anonymize_all E text =
     (case gather_regex E text of
        Inl err \<Rightarrow> Inl err
      | Inr repls \<Rightarrow>
          (case gather_phones E text of
             Inl err \<Rightarrow> Inl err
           | Inr phones \<Rightarrow>
               (case nlp E text of
                  Inl err \<Rightarrow> Inl err
                | Inr doc \<Rightarrow> Inr (apply_repls text (repls @ phones @ gather_person doc)))))"

text \<open>
  The loop of \<open>anonymize_all_many\<close> over \<open>zip(texts, regex_batches, phone_batches,
  docs, strict=True)\<close>. Pulling a document may raise; when the first sequence is
  exhausted \<open>zip\<close> probes the others, and a length mismatch is a \<open>ValueError\<close>.
\<close>

fun many_loop ::
  "string list \<Rightarrow> Repl list list \<Rightarrow> Repl list list \<Rightarrow> (error + ent list) list \<Rightarrow> string list \<Rightarrow>
   error + string list" where
  "many_loop (txt # texts) (reg_r # regs) (ph_r # phs) (d # docs) results =
     (case d of
        Inl err \<Rightarrow> Inl err
      | Inr doc \<Rightarrow>
          many_loop texts regs phs docs (results @ [apply_repls txt (reg_r @ ph_r @ gather_person doc)]))"
| "many_loop [] [] [] [] results = Inr results"
| "many_loop [] [] [] (Inl err # docs) results = Inl err"
| "many_loop texts regs phs docs results = Inl ValueError"

definition anonymize_all_many :: "env \<Rightarrow> string list \<Rightarrow> error + string list" where
  "anonymize_all_many E texts =
     (case map_err (gather_regex E) texts of
        Inl err \<Rightarrow> Inl err
      | Inr regex_batches \<Rightarrow>
          (case map_err (gather_phones E) texts of
             Inl err \<Rightarrow> Inl err
           | Inr phone_batches \<Rightarrow> many_loop texts regex_batches phone_batches (nlp_pipe E texts) []))"

section \<open>The sweep, as the specification words it\<close>

text \<open>
  \<open>survivors c rs\<close> are the spans of \<open>rs\<close> that the walk accepts from cursor \<open>c\<close>: a
  span whose start lies before the cursor is discarded, any other is kept and moves
  the cursor to its end. \<open>render\<close> emits, for each kept span, the literal text from
  the cursor to its start and then its replacement, and at last the rest of the text.
  \<open>cursor_after\<close> is the cursor the walk reaches.
\<close>

fun survivors :: "int \<Rightarrow> Repl list \<Rightarrow> Repl list" where
  "survivors c [] = []"
| "survivors c (r # rs) = (if start r < c then survivors c rs else r # survivors (end_r r) rs)"

fun render :: "string \<Rightarrow> int \<Rightarrow> Repl list \<Rightarrow> string" where
  "render text c [] = slice_from text c"
| "render text c (r # rs) = slice text c (start r) @ repl r @ render text (end_r r) rs"

fun cursor_after :: "int \<Rightarrow> Repl list \<Rightarrow> int" where
  "cursor_after c [] = c"
| "cursor_after c (r # rs) = (if start r < c then cursor_after c rs else cursor_after (end_r r) rs)"

text \<open>A span with both offsets cut down to the length \<open>n\<close> of the text.\<close>

definition clamp_span :: "int \<Rightarrow> Repl \<Rightarrow> Repl" where
  "clamp_span n r = r\<lparr>start := min (start r) n, end_r := min (end_r r) n\<rparr>"

text \<open>
  Two sorted lists that differ by the one element \<open>b\<close>, every element of \<open>A\<close> lying
  before \<open>b\<close>: what a stable sort leaves of two inputs that differ by \<open>b\<close>.
\<close>

definition straddles :: "('a \<Rightarrow> int) \<Rightarrow> 'a set \<Rightarrow> 'a \<Rightarrow> 'a list \<Rightarrow> 'a list \<Rightarrow> bool" where
  "straddles f A b l l' \<longleftrightarrow>
     (\<exists>ps qs. l = ps @ b # qs \<and> l' = ps @ qs \<and> A \<subseteq> set ps \<and>
        (\<forall>p\<in>set ps. f p \<le> f b) \<and> (\<forall>q\<in>set qs. f b \<le> f q))"


section \<open>The validators, as the specification words them\<close>

text \<open>
  Luhn: of the digits in reverse order, every second one (odd index) is doubled and
  reduced by 9 when the double exceeds 9; the sum must be divisible by 10.
\<close>

definition luhn_digit :: "nat \<Rightarrow> int \<Rightarrow> int" where
  "luhn_digit i d = (if odd i then (if 2 * d > 9 then 2 * d - 9 else 2 * d) else d)"

definition luhn_total :: "int list \<Rightarrow> int" where
  "luhn_total ds = sum_list (map (\<lambda>i. luhn_digit i (ds ! i)) [0..<length ds])"

definition luhn_accepts :: "string \<Rightarrow> bool" where
  "luhn_accepts s = (luhn_total (rev (map (\<lambda>c. int (digit_val c)) (filter isdigit s))) mod 10 = 0)"

text \<open>
  IBAN: letters count as \<open>A = 10\<close> up to \<open>Z = 35\<close>; \<open>iban_value\<close> is the number whose
  decimal digits are the digits of the string with each letter replaced by its two
  digits, and \<open>numeric_width\<close> the number of those digits. The number exists for a
  string of digits and capital letters; \<open>iban_accepts\<close> asks for one, after the
  whitespace and dashes are removed and the letters are made capital.
\<close>

definition is_upper_alpha :: "char \<Rightarrow> bool" where
  "is_upper_alpha c = (c \<in> set ''ABCDEFGHIJKLMNOPQRSTUVWXYZ'')"

definition is_alnum :: "char \<Rightarrow> bool" where
  "is_alnum c = (isdigit c \<or> is_upper_alpha c \<or> c \<in> set ''abcdefghijklmnopqrstuvwxyz'')"

definition letter_val :: "char \<Rightarrow> nat" where
  "letter_val c = of_char c - 55"

definition iban_step :: "nat \<Rightarrow> char \<Rightarrow> nat" where
  "iban_step acc c = (if isdigit c then acc * 10 + digit_val c else acc * 100 + letter_val c)"

definition iban_value :: "string \<Rightarrow> nat" where
  "iban_value s = foldl iban_step 0 s"

definition iban_accepts :: "string \<Rightarrow> bool" where
  "iban_accepts s =
     (let raw = map upper_char (filter (\<lambda>c. \<not> is_space c \<and> c \<noteq> CHR ''-'') s) in
      prefix ''FR'' raw \<and> length raw = 27 \<and>
      list_all (\<lambda>c. isdigit c \<or> is_upper_alpha c) raw \<and>
      iban_value (drop 4 raw @ take 4 raw) mod 97 = 1)"

definition numeric_width :: "string \<Rightarrow> nat" where
  "numeric_width s = sum_list (map (\<lambda>c. if isdigit c then 1 else 2) s)"

text \<open>
  National ID: exactly 15 digits, the last two being the key of the first thirteen.
\<close>

definition decimal_value :: "string \<Rightarrow> nat" where
  "decimal_value ds = foldl (\<lambda>a c. a * 10 + digit_val c) 0 ds"

definition nir_accepts :: "string \<Rightarrow> bool" where
  "nir_accepts s =
     (let num = strip s in
      length num = 15 \<and> list_all isdigit num \<and>
      97 - int (decimal_value (take 13 num)) mod 97 = int (decimal_value (drop 13 num)))"

text \<open>Sample providers, for the concrete instances below.\<close>

definition quiet_env :: env where
  "quiet_env = \<lparr>finditer = (\<lambda>_ _. []), dt_parse = (\<lambda>_. None),
     PhoneNumberMatcher = (\<lambda>_. Inr []), nlp = (\<lambda>_. Inr []), nlp_pipe = map (\<lambda>_. Inr [])\<rparr>"

definition sample_nlp :: "string \<Rightarrow> error + ent list" where
  "sample_nlp t = (if t = ''Bob'' then Inr [\<lparr>ent_label = ''PER'', ent_text = ''Bob'', start_char = 0, end_char = 3\<rparr>]
                   else Inr [])"

definition sample_env :: env where
  "sample_env = \<lparr>
     finditer = (\<lambda>p t. if p = email_pat \<and> t = ''mail jo@x.com'' then [(5, 13)] else []),
     dt_parse = (\<lambda>_. None),
     PhoneNumberMatcher = (\<lambda>t. if t = ''tel 0612345678''
        then Inr [\<lparr>m_start = 4, m_end = 14, is_possible_number = True\<rparr>] else Inr []),
     nlp = sample_nlp,
     nlp_pipe = map sample_nlp\<rparr>"

definition failing_env :: env where
  "failing_env = quiet_env\<lparr>nlp_pipe := (\<lambda>texts. [Inr [], Inl ProviderError])\<rparr>"

definition flaky_nlp :: "string \<Rightarrow> error + ent list" where
  "flaky_nlp t = (if t = ''b'' then Inl ProviderError else Inr [])"

definition flaky_env :: env where
  "flaky_env = quiet_env\<lparr>nlp := flaky_nlp, nlp_pipe := map flaky_nlp\<rparr>"

definition tie_env :: env where
  "tie_env = \<lparr>
     finditer = (\<lambda>p t. if p = permis_pat then [(0, 12)] else []),
     dt_parse = (\<lambda>_. None),
     PhoneNumberMatcher = (\<lambda>t. Inr [\<lparr>m_start = 0, m_end = 10, is_possible_number = True\<rparr>]),
     nlp = (\<lambda>t. Inr [\<lparr>ent_label = ''PER'', ent_text = ''0612'', start_char = 0, end_char = 4\<rparr>]),
     nlp_pipe = map (\<lambda>t. Inr [])\<rparr>"

definition card_env :: env where
  "card_env = quiet_env\<lparr>finditer := (\<lambda>p t. if p = card_pat then [(0, 16)] else [])\<rparr>"

section \<open>The reconstruction is the sweep\<close>

lemma slice_from_0: "slice_from text 0 = text"
  by (simp add: slice_from_def adjust_def)

lemma apply_loop_render:
  "apply_loop text rs out c = (out', c') \<Longrightarrow>
   concat (out' @ [slice_from text c']) = concat out @ render text c (survivors c rs)"
  by (induction rs arbitrary: out c) (auto split: if_splits)

lemma apply_repls_render: "apply_repls text repls = render text 0 (survivors 0 (sort_key start repls))"
proof (cases "repls = []")
  case True
  then show ?thesis by (simp add: apply_repls_def slice_from_0)
next
  case False
  obtain out' c' where l: "apply_loop text (sort_key start repls) [] 0 = (out', c')"
    by (cases "apply_loop text (sort_key start repls) [] 0")
  from apply_loop_render[OF l] False l show ?thesis
    by (simp add: apply_repls_def)
qed

lemma survivors_append:
  "survivors c (ps @ qs) = survivors c ps @ survivors (cursor_after c ps) qs"
  by (induction ps arbitrary: c) auto

lemma cursor_after_all_before:
  "\<forall>p\<in>set ps. start p < c \<Longrightarrow> cursor_after c ps = c"
  by (induction ps) auto

lemma cursor_after_past:
  "a \<in> set ps \<Longrightarrow> start a < end_r a \<Longrightarrow> \<forall>p\<in>set ps. start p \<le> start a \<Longrightarrow>
   start a < cursor_after c ps"
proof (induction ps arbitrary: c)
  case Nil
  then show ?case by simp
next
  case (Cons p ps)
  show ?case
  proof (cases "a \<in> set ps")
    case True
    with Cons show ?thesis by auto
  next
    case False
    with Cons.prems have ap: "a = p" by simp
    show ?thesis
    proof (cases "start p < c")
      case True
      with ap Cons.prems have "\<forall>q\<in>set ps. start q < c" by auto
      then have "cursor_after c ps = c" by (rule cursor_after_all_before)
      with True ap show ?thesis by simp
    next
      case False
      from ap Cons.prems have "\<forall>q\<in>set ps. start q < end_r p" by auto
      then have "cursor_after (end_r p) ps = end_r p" by (rule cursor_after_all_before)
      with False ap Cons.prems show ?thesis by simp
    qed
  qed
qed

lemma survivors_drop_shadowed:
  assumes "a \<in> set ps" "start a < end_r a" "\<forall>p\<in>set ps. start p \<le> start a" "start b = start a"
  shows "survivors c (ps @ b # qs) = survivors c (ps @ qs)"
  using cursor_after_past[OF assms(1,2,3), of c] assms(4)
  by (simp add: survivors_append)

section \<open>A stable sort keeps a same-start pair in order\<close>

lemma insort_key_before:
  "f y \<le> f b \<Longrightarrow> insort_key f y (ps @ b # qs) = insort_key f y ps @ b # qs"
  by (induction ps) auto

lemma insort_key_before':
  "f y \<le> f b \<Longrightarrow> \<forall>q\<in>set qs. f b \<le> f q \<Longrightarrow> insort_key f y (ps @ qs) = insort_key f y ps @ qs"
proof (induction ps)
  case Nil
  then show ?case by (cases qs) auto
next
  case (Cons p ps)
  then show ?case by auto
qed

lemma insort_key_after:
  "\<forall>p\<in>set ps. f p < f y \<Longrightarrow> insort_key f y (ps @ qs) = ps @ insort_key f y qs"
  by (induction ps) auto

lemma straddles_insort_le:
  assumes "straddles f A b l l'" "f y \<le> f b"
  shows "straddles f (insert y A) b (insort_key f y l) (insort_key f y l')"
proof -
  from assms obtain ps qs where h: "l = ps @ b # qs" "l' = ps @ qs" "A \<subseteq> set ps"
    "\<forall>p\<in>set ps. f p \<le> f b" "\<forall>q\<in>set qs. f b \<le> f q"
    unfolding straddles_def by blast
  have "insort_key f y l = insort_key f y ps @ b # qs"
    using assms(2) h(1) by (simp add: insort_key_before)
  moreover have "insort_key f y l' = insort_key f y ps @ qs"
    using assms(2) h(2,5) by (simp add: insort_key_before')
  moreover have "insert y A \<subseteq> set (insort_key f y ps)"
    using h(3) by (auto simp: set_insort_key)
  moreover have "\<forall>p\<in>set (insort_key f y ps). f p \<le> f b"
    using assms(2) h(4) by (simp add: set_insort_key)
  ultimately show ?thesis using h(5) unfolding straddles_def by blast
qed

lemma straddles_weaken: "straddles f A b l l' \<Longrightarrow> B \<subseteq> A \<Longrightarrow> straddles f B b l l'"
  unfolding straddles_def by blast

lemma straddles_insort:
  assumes "straddles f A b l l'"
  shows "straddles f A b (insort_key f y l) (insort_key f y l')"
proof (cases "f y \<le> f b")
  case True
  from straddles_insort_le[OF assms True] show ?thesis
    by (rule straddles_weaken) auto
next
  case False
  from assms obtain ps qs where h: "l = ps @ b # qs" "l' = ps @ qs" "A \<subseteq> set ps"
    "\<forall>p\<in>set ps. f p \<le> f b" "\<forall>q\<in>set qs. f b \<le> f q"
    unfolding straddles_def by blast
  from False have lt: "\<forall>p\<in>set ps. f p < f y" using h(4) by auto
  have 1: "insort_key f y l = ps @ b # insort_key f y qs"
    using insort_key_after[OF lt, of "b # qs"] False h(1) by simp
  have 2: "insort_key f y l' = ps @ insort_key f y qs"
    using insort_key_after[OF lt, of qs] h(2) by simp
  have "\<forall>q\<in>set (insort_key f y qs). f b \<le> f q"
    using False h(5) by (auto simp: set_insort_key)
  with 1 2 h(3,4) show ?thesis unfolding straddles_def by blast
qed

lemma straddles_foldr:
  "straddles f A b l l' \<Longrightarrow> straddles f A b (foldr (insort_key f) xs l) (foldr (insort_key f) xs l')"
  by (induction xs) (auto intro: straddles_insort)

lemma straddles_init:
  "sorted (map f l) \<Longrightarrow> straddles f {} b (insort_key f b l) l"
proof (induction l)
  case Nil
  then show ?case by (simp add: straddles_def)
next
  case (Cons x l)
  show ?case
  proof (cases "f b \<le> f x")
    case True
    with Cons.prems have "insort_key f b (x # l) = [] @ b # (x # l) \<and> x # l = [] @ (x # l) \<and>
        (\<forall>p\<in>set []. f p \<le> f b) \<and> (\<forall>q\<in>set (x # l). f b \<le> f q)"
      by auto
    then show ?thesis unfolding straddles_def by blast
  next
    case False
    from Cons obtain ps qs where h: "insort_key f b l = ps @ b # qs" "l = ps @ qs"
       "\<forall>p\<in>set ps. f p \<le> f b" "\<forall>q\<in>set qs. f b \<le> f q"
      unfolding straddles_def by auto
    with False have "insort_key f b (x # l) = (x # ps) @ b # qs \<and> x # l = (x # ps) @ qs \<and>
        (\<forall>p\<in>set (x # ps). f p \<le> f b) \<and> (\<forall>q\<in>set qs. f b \<le> f q)"
      by auto
    then show ?thesis unfolding straddles_def by blast
  qed
qed

lemma sort_key_append: "sort_key f (xs @ ys) = foldr (insort_key f) xs (sort_key f ys)"
  by (induction xs) auto

lemma straddles_sort:
  assumes "f a = f b"
  shows "straddles f {a} b (sort_key f (xs @ a # ys @ b # zs)) (sort_key f (xs @ a # ys @ zs))"
proof -
  have "straddles f {} b (insort_key f b (sort_key f zs)) (sort_key f zs)"
    by (rule straddles_init) simp
  then have "straddles f {} b (sort_key f (ys @ b # zs)) (sort_key f (ys @ zs))"
    using straddles_foldr[of f "{}" b _ _ ys] by (simp add: sort_key_append)
  then have "straddles f {a} b (sort_key f (a # ys @ b # zs)) (sort_key f (a # ys @ zs))"
    using straddles_insort_le[of f "{}" b _ _ a] assms by simp
  then show ?thesis
    using straddles_foldr[of f "{a}" b _ _ xs] by (simp add: sort_key_append)
qed

lemma apply_repls_drop_shadowed:
  assumes "start b = start a" "start a < end_r a"
  shows "apply_repls text (xs @ a # ys @ b # zs) = apply_repls text (xs @ a # ys @ zs)"
proof -
  from straddles_sort[of start a b xs ys zs] assms(1)
  obtain ps qs where h: "sort_key start (xs @ a # ys @ b # zs) = ps @ b # qs"
     "sort_key start (xs @ a # ys @ zs) = ps @ qs" "a \<in> set ps" "\<forall>p\<in>set ps. start p \<le> start b"
    unfolding straddles_def by auto
  have "survivors 0 (ps @ b # qs) = survivors 0 (ps @ qs)"
    using h(3,4) assms by (intro survivors_drop_shadowed[of a]) auto
  then show ?thesis by (simp add: apply_repls_render h)
qed

section \<open>Offsets beyond the text\<close>

lemma adjust_min: "adjust n (min i (int n)) = adjust n i"
  by (auto simp: adjust_def min_def)

lemma slice_min: "slice text (min a (int (length text))) (min b (int (length text))) = slice text a b"
  by (simp add: slice_def adjust_min)

lemma slice_from_min: "slice_from text (min a (int (length text))) = slice_from text a"
  by (simp add: slice_from_def adjust_min)

lemma set_survivors: "set (survivors c rs) \<subseteq> set rs"
  by (induction rs arbitrary: c) auto

lemma survivors_sorted: "sorted (map start rs) \<Longrightarrow> sorted (map start (survivors c rs))"
proof (induction rs arbitrary: c)
  case Nil
  then show ?case by simp
next
  case (Cons r rs)
  then show ?case using set_survivors[of "end_r r" rs] by auto
qed

lemma survivors_idem: "survivors c (survivors c rs) = survivors c rs"
  by (induction rs arbitrary: c) auto

lemma survivors_nonneg:
  "sorted (map start rs) \<Longrightarrow> 0 \<le> c \<Longrightarrow> r \<in> set (survivors c rs) \<Longrightarrow> 0 \<le> start r"
proof (induction rs arbitrary: c)
  case Nil
  then show ?case by simp
next
  case (Cons p rs)
  show ?case
  proof (cases "start p < c")
    case True
    with Cons show ?thesis by auto
  next
    case False
    with Cons.prems have "r = p \<or> r \<in> set rs" using set_survivors[of "end_r p" rs] by auto
    with False Cons.prems show ?thesis by auto
  qed
qed

lemma survivors_clamp:
  "survivors (min c n) (map (clamp_span n) (survivors c rs)) = map (clamp_span n) (survivors c rs)"
  by (induction rs arbitrary: c) (auto simp: clamp_span_def min_def)

lemma render_clamp:
  "render text (min c (int (length text))) (map (clamp_span (int (length text))) rs) = render text c rs"
proof (induction rs arbitrary: c)
  case Nil
  then show ?case by (simp add: slice_from_min)
next
  case (Cons r rs)
  have "slice text (min c (int (length text))) (min (start r) (int (length text))) = slice text c (start r)"
    by (rule slice_min)
  with Cons show ?case by (simp add: clamp_span_def)
qed

lemma sorted_clamp: "sorted (map start rs) \<Longrightarrow> sorted (map start (map (clamp_span n) rs))"
  by (induction rs) (auto simp: clamp_span_def min_def)

lemma apply_repls_clamped:
  fixes t :: string and repls :: "Repl list"
  defines "n \<equiv> int (length t)"
  defines "kept \<equiv> map (clamp_span n) (survivors 0 (sort_key start repls))"
  shows "apply_repls t repls = apply_repls t kept"
proof -
  let ?K = "survivors 0 (sort_key start repls)"
  have s: "sorted (map start kept)"
    unfolding kept_def by (intro sorted_clamp survivors_sorted) simp
  have "survivors (min 0 n) kept = kept"
    unfolding kept_def by (rule survivors_clamp)
  then have k: "survivors 0 kept = kept" by (simp add: n_def)
  have "render t (min 0 n) kept = render t 0 ?K"
    unfolding kept_def n_def by (rule render_clamp)
  then have r: "render t 0 kept = render t 0 ?K" by (simp add: n_def)
  show ?thesis
    by (simp add: apply_repls_render sort_key_id_if_sorted[OF s] k r)
qed

lemma kept_in_range:
  assumes "r \<in> set (map (clamp_span (int (length text))) (survivors 0 (sort_key start repls)))"
  shows "0 \<le> start r \<and> start r \<le> int (length text) \<and> end_r r \<le> int (length text)"
proof -
  from assms obtain p where p: "p \<in> set (survivors 0 (sort_key start repls))" "r = clamp_span (int (length text)) p"
    by auto
  have "0 \<le> start p" using survivors_nonneg[OF _ _ p(1)] by simp
  with p(2) show ?thesis by (simp add: clamp_span_def)
qed

section \<open>Span collection appends in order\<close>

lemma gather_matches_acc:
  "out \<noteq> [] \<Longrightarrow> gather_matches t m v ms out =
     (case gather_matches t m v ms [] of Inl err \<Rightarrow> Inl err | Inr r \<Rightarrow> Inr (out @ r))"
proof (induction ms arbitrary: out)
  case Nil
  then show ?case by simp
next
  case (Cons a ms)
  obtain s e where a: "a = (s, e)" by (cases a)
  let ?sp = "\<lambda>x. \<lparr>start = s, end_r = e, repl = x\<rparr>"
  have 1: "gather_matches t m v ms (out @ [?sp x]) =
       (case gather_matches t m v ms [] of Inl err \<Rightarrow> Inl err | Inr r \<Rightarrow> Inr (out @ ?sp x # r))" for x
    using Cons.IH[of "out @ [?sp x]"] by (simp split: sum.splits)
  have 2: "gather_matches t m v ms [?sp x] =
       (case gather_matches t m v ms [] of Inl err \<Rightarrow> Inl err | Inr r \<Rightarrow> Inr (?sp x # r))" for x
    using Cons.IH[of "[?sp x]"] by (simp split: sum.splits)
  show ?case
    unfolding a using Cons.prems
    by (simp add: 1 2 Cons.IH[of out] split: sum.splits option.splits)
qed

lemma gather_rules_acc:
  "gather_rules fi t rules out =
     (case gather_rules fi t rules [] of Inl err \<Rightarrow> Inl err | Inr r \<Rightarrow> Inr (out @ r))"
proof (induction rules arbitrary: out)
  case Nil
  then show ?case by simp
next
  case (Cons a rules)
  obtain p m v where a: "a = (p, m, v)" by (cases a)
  show ?case
  proof (cases "out = []")
    case True
    then show ?thesis by (simp split: sum.splits)
  next
    case False
    show ?thesis
    proof (cases "gather_matches t m v (fi p t) []")
      case (Inl err)
      with False show ?thesis unfolding a by (simp add: gather_matches_acc)
    next
      case (Inr M)
      have "gather_rules fi t rules (out @ M) =
          (case gather_rules fi t rules [] of Inl err \<Rightarrow> Inl err | Inr r \<Rightarrow> Inr (out @ M @ r))"
        using Cons.IH[of "out @ M"] by (simp split: sum.splits)
      moreover have "gather_rules fi t rules M =
          (case gather_rules fi t rules [] of Inl err \<Rightarrow> Inl err | Inr r \<Rightarrow> Inr (M @ r))"
        by (rule Cons.IH)
      ultimately show ?thesis
        unfolding a using False Inr by (simp add: gather_matches_acc split: sum.splits)
    qed
  qed
qed

lemma gather_rules_append:
  "gather_rules fi t rules1 [] = Inr A \<Longrightarrow> gather_rules fi t rules2 [] = Inr B \<Longrightarrow>
   gather_rules fi t (rules1 @ rules2) [] = Inr (A @ B)"
proof (induction rules1 arbitrary: A)
  case Nil
  then show ?case by simp
next
  case (Cons a rules1)
  obtain p m v where a: "a = (p, m, v)" by (cases a)
  from Cons.prems(1) obtain M where M: "gather_matches t m v (fi p t) [] = Inr M"
    and r: "gather_rules fi t rules1 M = Inr A"
    unfolding a by (auto split: sum.splits)
  from r obtain A' where A': "gather_rules fi t rules1 [] = Inr A'" "A = M @ A'"
    using gather_rules_acc[of fi t rules1 M] by (cases "gather_rules fi t rules1 []") auto
  from Cons.IH[OF A'(1) Cons.prems(2)] have "gather_rules fi t (rules1 @ rules2) [] = Inr (A' @ B)" .
  then have "gather_rules fi t (rules1 @ rules2) M = Inr (M @ A' @ B)"
    using gather_rules_acc[of fi t "rules1 @ rules2" M] by simp
  with M A'(2) show ?case unfolding a by simp
qed

lemma phones_loop_acc: "phones_loop t ms out = out @ phones_loop t ms []"
proof (induction ms arbitrary: out)
  case Nil
  then show ?case by simp
next
  case (Cons m ms)
  show ?case
    using Cons.IH[of "out @ [\<lparr>start = m_start m, end_r = m_end m, repl = mask_phone (slice t (m_start m) (m_end m))\<rparr>]"]
      Cons.IH[of "[\<lparr>start = m_start m, end_r = m_end m, repl = mask_phone (slice t (m_start m) (m_end m))\<rparr>]"]
      Cons.IH[of out]
    by simp
qed

lemma apply_repls_single:
  "0 \<le> start a \<Longrightarrow> apply_repls t [a] = slice t 0 (start a) @ repl a @ slice_from t (end_r a)"
  by (simp add: apply_repls_render)

section \<open>The batch loop\<close>

lemma map_err_Inr_iff: "map_err f xs = Inr ys \<longleftrightarrow> map f xs = map Inr ys"
proof (induction xs arbitrary: ys)
  case Nil
  then show ?case by auto
next
  case (Cons x xs)
  show ?case
  proof (cases "f x")
    case (Inl e)
    then show ?thesis by (cases ys) auto
  next
    case (Inr y)
    show ?thesis
    proof (cases "map_err f xs")
      case (Inl e)
      with Cons.IH Inr show ?thesis by (cases ys) auto
    next
      case (Inr zs)
      with Cons.IH[of zs] Cons.IH \<open>f x = Inr y\<close> show ?thesis by (cases ys) auto
    qed
  qed
qed

lemma many_loop_single:
  "map (gather_regex E) texts = map Inr regs \<Longrightarrow> map (gather_phones E) texts = map Inr phs \<Longrightarrow>
   many_loop texts regs phs (map (nlp E) texts) results = Inr outs \<longleftrightarrow>
     (\<exists>outs'. outs = results @ outs' \<and> map (anonymize_all E) texts = map Inr outs')"
proof (induction texts arbitrary: regs phs results)
  case Nil
  then show ?case by auto
next
  case (Cons t ts)
  from Cons.prems obtain r rs p ps where rp: "regs = r # rs" "phs = p # ps"
    "gather_regex E t = Inr r" "gather_phones E t = Inr p"
    "map (gather_regex E) ts = map Inr rs" "map (gather_phones E) ts = map Inr ps"
    by (cases regs; cases phs) auto
  show ?case
  proof (cases "nlp E t")
    case (Inl e)
    with rp show ?thesis by (auto simp: anonymize_all_def)
  next
    case (Inr doc)
    let ?o = "apply_repls t (r @ p @ gather_person doc)"
    have a: "anonymize_all E t = Inr ?o" using rp Inr by (simp add: anonymize_all_def)
    have "many_loop (t # ts) regs phs (map (nlp E) (t # ts)) results
        = many_loop ts rs ps (map (nlp E) ts) (results @ [?o])"
      using rp Inr by simp
    also have "\<dots> = Inr outs \<longleftrightarrow>
        (\<exists>outs'. outs = (results @ [?o]) @ outs' \<and> map (anonymize_all E) ts = map Inr outs')"
      by (rule Cons.IH[OF rp(5,6)])
    also have "\<dots> \<longleftrightarrow> (\<exists>outs'. outs = results @ outs' \<and> map (anonymize_all E) (t # ts) = map Inr outs')"
    proof
      assume "\<exists>outs'. outs = (results @ [?o]) @ outs' \<and> map (anonymize_all E) ts = map Inr outs'"
      then obtain q where "outs = (results @ [?o]) @ q" "map (anonymize_all E) ts = map Inr q" by blast
      then have "outs = results @ (?o # q) \<and> map (anonymize_all E) (t # ts) = map Inr (?o # q)"
        using a by simp
      then show "\<exists>outs'. outs = results @ outs' \<and> map (anonymize_all E) (t # ts) = map Inr outs'" by blast
    next
      assume "\<exists>outs'. outs = results @ outs' \<and> map (anonymize_all E) (t # ts) = map Inr outs'"
      then obtain q where q: "outs = results @ q" "map (anonymize_all E) (t # ts) = map Inr q" by blast
      then obtain q' where "q = ?o # q'" "map (anonymize_all E) ts = map Inr q'"
        using a by (cases q) auto
      with q show "\<exists>outs'. outs = (results @ [?o]) @ outs' \<and> map (anonymize_all E) ts = map Inr outs'"
        by simp
    qed
    finally show ?thesis .
  qed
qed

lemma anonymize_all_Inr_parts:
  "anonymize_all E t = Inr y \<Longrightarrow> (\<exists>r. gather_regex E t = Inr r) \<and> (\<exists>p. gather_phones E t = Inr p)"
  by (auto simp: anonymize_all_def split: sum.splits)

lemma all_Inr_map: "\<forall>x\<in>set xs. \<exists>y. f x = Inr y \<Longrightarrow> \<exists>ys. map f xs = map Inr ys"
proof (induction xs)
  case Nil
  then show ?case by simp
next
  case (Cons x xs)
  then obtain y ys where "f x = Inr y" "map f xs = map Inr ys" by auto
  then have "map f (x # xs) = map Inr (y # ys)" by simp
  then show ?case by blast
qed

lemma map_Inr_nth: "map f xs = map Inr ys \<Longrightarrow> x \<in> set xs \<Longrightarrow> \<exists>y. f x = Inr y"
proof (induction xs arbitrary: ys)
  case Nil
  then show ?case by simp
next
  case (Cons a xs)
  then show ?case by (cases ys) auto
qed

lemma many_eq_single:
  assumes "nlp_pipe E texts = map (nlp E) texts"
  shows "anonymize_all_many E texts = Inr outs \<longleftrightarrow> map (anonymize_all E) texts = map Inr outs"
proof (cases "\<exists>regs phs. map (gather_regex E) texts = map Inr regs \<and> map (gather_phones E) texts = map Inr phs")
  case True
  then obtain regs phs where h: "map (gather_regex E) texts = map Inr regs"
     "map (gather_phones E) texts = map Inr phs" by blast
  then have "map_err (gather_regex E) texts = Inr regs" "map_err (gather_phones E) texts = Inr phs"
    by (simp_all add: map_err_Inr_iff)
  then have "anonymize_all_many E texts = many_loop texts regs phs (map (nlp E) texts) []"
    using assms by (simp add: anonymize_all_many_def)
  then show ?thesis using many_loop_single[OF h, of "[]" outs] by simp
next
  case False
  have l: "anonymize_all_many E texts \<noteq> Inr outs"
  proof
    assume "anonymize_all_many E texts = Inr outs"
    then obtain regs phs where "map_err (gather_regex E) texts = Inr regs"
       "map_err (gather_phones E) texts = Inr phs"
      by (auto simp: anonymize_all_many_def split: sum.splits)
    with False show False by (simp add: map_err_Inr_iff)
  qed
  have r: "map (anonymize_all E) texts \<noteq> map Inr outs"
  proof
    assume m: "map (anonymize_all E) texts = map Inr outs"
    have "\<forall>t\<in>set texts. \<exists>y. gather_regex E t = Inr y"
      using map_Inr_nth[OF m] anonymize_all_Inr_parts by blast
    moreover have "\<forall>t\<in>set texts. \<exists>y. gather_phones E t = Inr y"
      using map_Inr_nth[OF m] anonymize_all_Inr_parts by blast
    ultimately show False using False all_Inr_map[of texts "gather_regex E"]
       all_Inr_map[of texts "gather_phones E"] by blast
  qed
  from l r show ?thesis by simp
qed

lemma many_loop_Inr:
  "many_loop texts regs phs docs results = Inr outs \<Longrightarrow>
   length docs = length texts \<and> (\<forall>d\<in>set docs. \<exists>doc. d = Inr doc)"
  by (induction texts regs phs docs results rule: many_loop.induct) (auto split: sum.splits)

lemma many_fails:
  assumes "i < length (nlp_pipe E texts)" "nlp_pipe E texts ! i = Inl e"
  shows "\<exists>e'. anonymize_all_many E texts = Inl e'"
proof (cases "anonymize_all_many E texts")
  case (Inl a)
  then show ?thesis by blast
next
  case (Inr outs)
  then obtain regs phs where "many_loop texts regs phs (nlp_pipe E texts) [] = Inr outs"
    by (auto simp: anonymize_all_many_def split: sum.splits)
  from many_loop_Inr[OF this] assms have False by (metis nth_mem sum.distinct(1))
  then show ?thesis ..
qed

section \<open>Overlap resolution\<close>

lemma survivors_disjoint:
  "\<forall>r\<in>set rs. start r \<le> end_r r \<Longrightarrow>
   sorted_wrt (\<lambda>a b. end_r a \<le> start b) (survivors c rs) \<and> (\<forall>k\<in>set (survivors c rs). c \<le> start k)"
proof (induction rs arbitrary: c)
  case Nil
  then show ?case by simp
next
  case (Cons r rs)
  from Cons.prems have wf: "\<forall>r\<in>set rs. start r \<le> end_r r" and r: "start r \<le> end_r r" by auto
  show ?case
  proof (cases "start r < c")
    case True
    with Cons.IH[OF wf, of c] show ?thesis by simp
  next
    case False
    from Cons.IH[OF wf, of "end_r r"] False r show ?thesis by fastforce
  qed
qed

lemma pair_overlap:
  assumes "0 \<le> start a" "start a < start b" "start b < end_r a"
  shows "apply_repls t [a, b] = slice t 0 (start a) @ repl a @ slice_from t (end_r a)"
    and "apply_repls t [b, a] = slice t 0 (start a) @ repl a @ slice_from t (end_r a)"
  using assms by (simp_all add: apply_repls_render)

text \<open>
  Claim C1. The reconstruction sorts the candidate spans by start offset (ascending,
  spans with equal starts keeping their order) and sweeps them with a cursor that
  starts at 0: a span that starts before the cursor is discarded, any other emits the
  text from the cursor to its start and its replacement, and moves the cursor to its
  end. Accepted spans never overlap. Of two spans where the second starts strictly
  inside the first, only the first-starting one is applied, whatever their lengths and
  their order in the list. Of two spans with the same start, the one earlier in the
  list is applied and the other contributes nothing; the list holds the spans of an
  earlier rule of the registry before those of a later rule.
\<close>

theorem overlap_resolution:
  "apply_repls t repls = render t 0 (survivors 0 (sort_key start repls))
   \<and> sorted (map start (sort_key start repls))
   \<and> filter (\<lambda>r. start r = k) (sort_key start repls) = filter (\<lambda>r. start r = k) repls
   \<and> ((\<forall>r\<in>set repls. start r \<le> end_r r) \<longrightarrow>
        sorted_wrt (\<lambda>a b. end_r a \<le> start b) (survivors 0 (sort_key start repls)))
   \<and> (0 \<le> start a \<and> start a < start b \<and> start b < end_r a \<longrightarrow>
        apply_repls t [a, b] = slice t 0 (start a) @ repl a @ slice_from t (end_r a) \<and>
        apply_repls t [b, a] = slice t 0 (start a) @ repl a @ slice_from t (end_r a))
   \<and> (start b = start a \<and> start a < end_r a \<longrightarrow>
        apply_repls t (xs @ a # ys @ b # zs) = apply_repls t (xs @ a # ys @ zs))
   \<and> (gather_rules fi t rules1 [] = Inr A \<and> gather_rules fi t rules2 [] = Inr B \<longrightarrow>
        gather_rules fi t (rules1 @ rules2) [] = Inr (A @ B))"
proof (intro conjI impI)
  show "apply_repls t repls = render t 0 (survivors 0 (sort_key start repls))"
    by (rule apply_repls_render)
  show "sorted (map start (sort_key start repls))" by simp
  show "filter (\<lambda>r. start r = k) (sort_key start repls) = filter (\<lambda>r. start r = k) repls"
    by (rule sort_key_stable)
  show "sorted_wrt (\<lambda>a b. end_r a \<le> start b) (survivors 0 (sort_key start repls))"
    if "\<forall>r\<in>set repls. start r \<le> end_r r"
    using survivors_disjoint[of "sort_key start repls" 0] that by simp
  show "apply_repls t [a, b] = slice t 0 (start a) @ repl a @ slice_from t (end_r a)"
    if "0 \<le> start a \<and> start a < start b \<and> start b < end_r a"
    using that by (simp add: pair_overlap)
  show "apply_repls t [b, a] = slice t 0 (start a) @ repl a @ slice_from t (end_r a)"
    if "0 \<le> start a \<and> start a < start b \<and> start b < end_r a"
    using that by (simp add: pair_overlap)
  show "apply_repls t (xs @ a # ys @ b # zs) = apply_repls t (xs @ a # ys @ zs)"
    if "start b = start a \<and> start a < end_r a"
    using that by (simp add: apply_repls_drop_shadowed)
  show "gather_rules fi t (rules1 @ rules2) [] = Inr (A @ B)"
    if "gather_rules fi t rules1 [] = Inr A \<and> gather_rules fi t rules2 [] = Inr B"
    using that by (simp add: gather_rules_append)
qed

lemma replicate_numeral: "replicate (numeral k) x = x # replicate (pred_numeral k) x"
  by (simp add: numeral_eq_Suc)

lemmas slice_eval = slice_def slice_from_def slice_to_def adjust_def

lemmas mask_eval = repeat_def replicate_numeral strip_def is_space_def

theorem overlap_resolution_witness:
  "apply_repls ''0123456789abcdefghij''
     [\<lparr>start = 5, end_r = 15, repl = ''[second]''\<rparr>, \<lparr>start = 0, end_r = 10, repl = ''[first]''\<rparr>]
     = ''[first]abcdefghij''
   \<and> sorted_wrt (\<lambda>a b. end_r a \<le> start b) (survivors 0 (sort_key start
     [\<lparr>start = 5, end_r = 15, repl = ''[second]''\<rparr>, \<lparr>start = 0, end_r = 10, repl = ''[first]''\<rparr>]))
   \<and> gather_rules (\<lambda>p t. [(0, 10)]) ''0123456789abcdefghij''
       ([(addr_pat, \<lambda>_. Inr ''ADRESSE'', None)] @ [(permis_pat, \<lambda>x. Inr (mask_license x), None)]) []
     = Inr ([\<lparr>start = 0, end_r = 10, repl = ''ADRESSE''\<rparr>] @ [\<lparr>start = 0, end_r = 10, repl = ''PERMIS********''\<rparr>])
   \<and> apply_repls ''0123456789abcdefghij''
       [\<lparr>start = 0, end_r = 10, repl = ''ADRESSE''\<rparr>, \<lparr>start = 0, end_r = 10, repl = ''PERMIS********''\<rparr>]
     = ''ADRESSEabcdefghij''"
proof -
  let ?t = "''0123456789abcdefghij''"
  let ?a = "\<lparr>start = 0, end_r = 10, repl = ''[first]''\<rparr>"
  let ?b = "\<lparr>start = 5, end_r = 15, repl = ''[second]''\<rparr>"
  let ?h = "\<lparr>start = 0, end_r = 10, repl = ''ADRESSE''\<rparr>"
  let ?l = "\<lparr>start = 0, end_r = 10, repl = ''PERMIS********''\<rparr>"
  let ?fi = "\<lambda>(p::pattern) (t::string). [(0::int, 10::int)]"
  let ?r1 = "[(addr_pat, \<lambda>_. Inr ''ADRESSE'', None)] :: (pattern \<times> masker \<times> validator option) list"
  let ?r2 = "[(permis_pat, \<lambda>x. Inr (mask_license x), None)] :: (pattern \<times> masker \<times> validator option) list"
  have ov: "0 \<le> start ?a \<and> start ?a < start ?b \<and> start ?b < end_r ?a" by simp
  have wf: "\<forall>r\<in>set [?b, ?a]. start r \<le> end_r r" by simp
  have tie: "start ?l = start ?h \<and> start ?h < end_r ?h" by simp
  have g: "gather_rules ?fi ?t ?r1 [] = Inr [?h] \<and> gather_rules ?fi ?t ?r2 [] = Inr [?l]"
    by (simp add: mask_license_def slice_def)
  note i1 = overlap_resolution[where t = ?t and repls = "[?b, ?a]" and a = ?a and b = ?b
      and fi = ?fi and ?rules1.0 = ?r1 and ?rules2.0 = ?r2 and A = "[?h]" and B = "[?l]"]
  note i2 = overlap_resolution[where t = ?t and repls = "[?h]" and a = ?h and b = ?l
      and xs = "[]" and ys = "[]" and zs = "[]"]
  from i1 ov have 1: "apply_repls ?t [?b, ?a] = slice ?t 0 (start ?a) @ repl ?a @ slice_from ?t (end_r ?a)"
    by blast
  from i1 wf have 2: "sorted_wrt (\<lambda>a b. end_r a \<le> start b) (survivors 0 (sort_key start [?b, ?a]))"
    by blast
  from i1 g have 3: "gather_rules ?fi ?t (?r1 @ ?r2) [] = Inr ([?h] @ [?l])"
    by blast
  from i2 tie have 4: "apply_repls ?t [?h, ?l] = apply_repls ?t [?h]"
    and 5: "apply_repls ?t [?h] = render ?t 0 (survivors 0 (sort_key start [?h]))"
    by simp_all
  show ?thesis unfolding 1 4 5 using 2 3 by (simp add: slice_eval)
qed

section \<open>Batch and single processing\<close>

lemmas gather_eval = gather_regex_def PATTERNS_def gather_phones_def gather_person_def

text \<open>
  The provider raises on the text \<open>b\<close> and the batched call yields what the single calls
  yield. \<open>anonymize_all\<close> returns \<open>a\<close> on the text \<open>a\<close>, and so does the batch of that
  text alone, but the batch of \<open>a\<close> and \<open>b\<close> raises and has no first element.
\<close>

theorem batch_equals_single_counterexample:
  "nlp_pipe flaky_env [''a'', ''b''] = map (nlp flaky_env) [''a'', ''b'']
   \<and> anonymize_all flaky_env ''a'' = Inr ''a''
   \<and> anonymize_all_many flaky_env [''a'', ''b''] = Inl ProviderError
   \<and> anonymize_all_many flaky_env [''a''] = Inr [''a'']"
  by (simp add: flaky_env_def flaky_nlp_def quiet_env_def anonymize_all_def anonymize_all_many_def
        gather_eval apply_repls_def)

text \<open>
  Claim C2, as the code has it. When the batched provider call yields for each text
  what the single call yields and \<open>anonymize_all\<close> raises on no text of the batch,
  \<open>anonymize_all_many\<close> returns; and it returns \<open>outs\<close> exactly when \<open>outs\<close> has one element
  per input text, in input order, the \<open>i\<close>-th being what \<open>anonymize_all\<close> returns on the
  \<open>i\<close>-th text.
\<close>

theorem batch_equals_single:
  assumes "nlp_pipe E texts = map (nlp E) texts"
  shows "((\<forall>t\<in>set texts. \<exists>y. anonymize_all E t = Inr y) \<longrightarrow>
            (\<exists>res. anonymize_all_many E texts = Inr res))
       \<and> (anonymize_all_many E texts = Inr outs \<longleftrightarrow>
            length outs = length texts \<and>
            (\<forall>i<length texts. anonymize_all E (texts ! i) = Inr (outs ! i)))"
proof (intro conjI impI)
  assume "\<forall>t\<in>set texts. \<exists>y. anonymize_all E t = Inr y"
  then obtain res where "map (anonymize_all E) texts = map Inr res"
    using all_Inr_map[of texts "anonymize_all E"] by blast
  with many_eq_single[OF assms, of res] show "\<exists>res. anonymize_all_many E texts = Inr res"
    by blast
next
  have "map (anonymize_all E) texts = map Inr outs \<longleftrightarrow>
        length outs = length texts \<and> (\<forall>i<length texts. anonymize_all E (texts ! i) = Inr (outs ! i))"
    by (auto simp: list_eq_iff_nth_eq)
  with many_eq_single[OF assms, of outs]
  show "anonymize_all_many E texts = Inr outs \<longleftrightarrow>
            length outs = length texts \<and>
            (\<forall>i<length texts. anonymize_all E (texts ! i) = Inr (outs ! i))" by simp
qed

theorem batch_equals_single_witness:
  "(\<exists>res. anonymize_all_many sample_env [''mail jo@x.com'', ''tel 0612345678'', ''Bob''] = Inr res)
   \<and> anonymize_all_many sample_env [''mail jo@x.com'', ''tel 0612345678'', ''Bob'']
     = Inr [''mail **@x.com'', ''tel XXXXXXXX78'', ''B**'']"
proof -
  let ?texts = "[''mail jo@x.com'', ''tel 0612345678'', ''Bob'']"
  let ?outs = "[''mail **@x.com'', ''tel XXXXXXXX78'', ''B**'']"
  have h: "nlp_pipe sample_env ?texts = map (nlp sample_env) ?texts"
    by (simp add: sample_env_def)
  have 0: "anonymize_all sample_env ''mail jo@x.com'' = Inr ''mail **@x.com''"
    by (simp add: anonymize_all_def sample_env_def sample_nlp_def gather_eval mask_email_def mask_eval
          apply_repls_def slice_eval)
  have 1: "anonymize_all sample_env ''tel 0612345678'' = Inr ''tel XXXXXXXX78''"
    by (simp add: anonymize_all_def sample_env_def sample_nlp_def gather_eval mask_phone_def mask_eval
          apply_repls_def slice_eval)
  have 2: "anonymize_all sample_env ''Bob'' = Inr ''B**''"
    by (simp add: anonymize_all_def sample_env_def sample_nlp_def gather_eval mask_eval
          apply_repls_def slice_eval)
  have s: "\<forall>t\<in>set ?texts. \<exists>y. anonymize_all sample_env t = Inr y"
    using 0 1 2 by simp
  have a: "\<forall>i<length ?texts. anonymize_all sample_env (?texts ! i) = Inr (?outs ! i)"
    using 0 1 2 by (simp add: less_Suc_eq numeral_3_eq_3)
  note th = batch_equals_single[OF h]
  from th s have "\<exists>res. anonymize_all_many sample_env ?texts = Inr res" by blast
  moreover from th[of ?outs] a have "anonymize_all_many sample_env ?texts = Inr ?outs" by simp
  ultimately show ?thesis by blast
qed

text \<open>
  A batch of two texts whose second document cannot be produced: the call raises, so
  the first text gets no output either.
\<close>

theorem batch_failure_counterexample:
  "anonymize_all_many failing_env [''a'', ''b''] = Inl ProviderError"
  by (simp add: anonymize_all_many_def failing_env_def quiet_env_def gather_eval apply_repls_def)

text \<open>
  Claim C4, as the code has it: there is no isolation of a failing document. When
  pulling the document of any text of the batch raises, \<open>anonymize_all_many\<close> raises
  and returns no output for any text.
\<close>

theorem batch_failure_propagates:
  assumes "i < length (nlp_pipe E texts)" "nlp_pipe E texts ! i = Inl e"
  shows "\<exists>e'. anonymize_all_many E texts = Inl e'"
  using assms by (rule many_fails)

theorem batch_failure_propagates_witness:
  "\<exists>e'. anonymize_all_many failing_env [''a'', ''b''] = Inl e'"
proof -
  have 1: "1 < length (nlp_pipe failing_env [''a'', ''b''])"
    by (simp add: failing_env_def)
  have 2: "nlp_pipe failing_env [''a'', ''b''] ! 1 = Inl ProviderError"
    by (simp add: failing_env_def)
  from batch_failure_propagates[OF 1 2] show ?thesis .
qed

section \<open>Texts without spans, spans beyond the text, ties across sources\<close>





text \<open>
  Claim C9. For every text and every list of spans, whatever their offsets, the
  reconstruction returns a string: it is the reconstruction of the accepted spans with
  their offsets cut down to the length of the text. Every span is thus either dropped
  or applied as clamped, and no offset beyond the text is ever read.
\<close>

theorem out_of_range_spans:
  "apply_repls t repls =
     apply_repls t (map (clamp_span (int (length t))) (survivors 0 (sort_key start repls)))
   \<and> (\<forall>r\<in>set (map (clamp_span (int (length t))) (survivors 0 (sort_key start repls))).
        0 \<le> start r \<and> start r \<le> int (length t) \<and> end_r r \<le> int (length t))
   \<and> set (survivors 0 (sort_key start repls)) \<subseteq> set repls"
proof (intro conjI ballI)
  show "apply_repls t repls =
     apply_repls t (map (clamp_span (int (length t))) (survivors 0 (sort_key start repls)))"
    by (rule apply_repls_clamped)
  show "0 \<le> start r" "start r \<le> int (length t)" "end_r r \<le> int (length t)"
    if "r \<in> set (map (clamp_span (int (length t))) (survivors 0 (sort_key start repls)))" for r
    using kept_in_range[OF that] by simp_all
  show "set (survivors 0 (sort_key start repls)) \<subseteq> set repls"
    using set_survivors[of 0 "sort_key start repls"] by simp
qed

theorem out_of_range_spans_witness:
  "apply_repls ''abcde'' [\<lparr>start = 50, end_r = 60, repl = ''Y''\<rparr>, \<lparr>start = 2, end_r = 100, repl = ''X''\<rparr>] = ''abX''
   \<and> apply_repls ''abcde'' [\<lparr>start = 7, end_r = 9, repl = ''Y''\<rparr>] = ''abcdeY''"
proof -
  let ?y = "\<lparr>start = 50, end_r = 60, repl = ''Y''\<rparr>"
  let ?x = "\<lparr>start = 2, end_r = 100, repl = ''X''\<rparr>"
  let ?z = "\<lparr>start = 7, end_r = 9, repl = ''Y''\<rparr>"
  have k: "map (clamp_span (int (length ''abcde''))) (survivors 0 (sort_key start [?y, ?x]))
      = [\<lparr>start = 2, end_r = 5, repl = ''X''\<rparr>]"
    by (simp add: clamp_span_def)
  have k': "map (clamp_span (int (length ''abcde''))) (survivors 0 (sort_key start [?z]))
      = [\<lparr>start = 5, end_r = 5, repl = ''Y''\<rparr>]"
    by (simp add: clamp_span_def)
  from out_of_range_spans[of "''abcde''" "[?y, ?x]"]
  have 1: "apply_repls ''abcde'' [?y, ?x] = apply_repls ''abcde'' [\<lparr>start = 2, end_r = 5, repl = ''X''\<rparr>]"
    unfolding k by blast
  from out_of_range_spans[of "''abcde''" "[?z]"]
  have 2: "apply_repls ''abcde'' [?z] = apply_repls ''abcde'' [\<lparr>start = 5, end_r = 5, repl = ''Y''\<rparr>]"
    unfolding k' by blast
  show ?thesis unfolding 1 2 by (simp add: apply_repls_def slice_eval)
qed

text \<open>
  Claim C10. \<open>anonymize_all\<close> appends regex spans, then phone spans, then person
  spans. A phone or person span that starts where a non-empty regex span starts
  contributes nothing to the output, and neither does a person span that starts where
  a non-empty phone span starts.
\<close>

theorem cross_source_tie_break:
  assumes "gather_regex E t = Inr regs" "gather_phones E t = Inr phs" "nlp E t = Inr doc"
    and "gather_person doc = pers"
  shows "(r \<in> set regs \<and> start r < end_r r \<and> phs = us @ p # vs \<and> start p = start r \<longrightarrow>
            anonymize_all E t = Inr (apply_repls t (regs @ (us @ vs) @ pers)))
       \<and> (r \<in> set regs \<and> start r < end_r r \<and> pers = us' @ q # vs' \<and> start q = start r \<longrightarrow>
            anonymize_all E t = Inr (apply_repls t (regs @ phs @ (us' @ vs'))))
       \<and> (p' \<in> set phs \<and> start p' < end_r p' \<and> pers = us' @ q # vs' \<and> start q = start p' \<longrightarrow>
            anonymize_all E t = Inr (apply_repls t (regs @ phs @ (us' @ vs'))))"
proof -
  have a: "anonymize_all E t = Inr (apply_repls t (regs @ phs @ pers))"
    using assms by (simp add: anonymize_all_def)
  show ?thesis
  proof (intro conjI impI)
    assume h: "r \<in> set regs \<and> start r < end_r r \<and> phs = us @ p # vs \<and> start p = start r"
    then obtain xs ys where s: "regs = xs @ r # ys" by (meson split_list)
    have "apply_repls t (xs @ r # (ys @ us) @ p # (vs @ pers)) = apply_repls t (xs @ r # (ys @ us) @ (vs @ pers))"
      using h by (intro apply_repls_drop_shadowed) auto
    with a h s show "anonymize_all E t = Inr (apply_repls t (regs @ (us @ vs) @ pers))" by simp
  next
    assume h: "r \<in> set regs \<and> start r < end_r r \<and> pers = us' @ q # vs' \<and> start q = start r"
    then obtain xs ys where s: "regs = xs @ r # ys" by (meson split_list)
    have "apply_repls t (xs @ r # (ys @ phs @ us') @ q # vs') = apply_repls t (xs @ r # (ys @ phs @ us') @ vs')"
      using h by (intro apply_repls_drop_shadowed) auto
    with a h s show "anonymize_all E t = Inr (apply_repls t (regs @ phs @ (us' @ vs')))" by simp
  next
    assume h: "p' \<in> set phs \<and> start p' < end_r p' \<and> pers = us' @ q # vs' \<and> start q = start p'"
    then obtain xs ys where s: "phs = xs @ p' # ys" by (meson split_list)
    have "apply_repls t ((regs @ xs) @ p' # (ys @ us') @ q # vs') = apply_repls t ((regs @ xs) @ p' # (ys @ us') @ vs')"
      using h by (intro apply_repls_drop_shadowed) auto
    with a h s show "anonymize_all E t = Inr (apply_repls t (regs @ phs @ (us' @ vs')))" by simp
  qed
qed

theorem cross_source_tie_break_witness:
  "anonymize_all tie_env ''061234567890'' = Inr ''PERMIS********''
   \<and> anonymize_all (tie_env\<lparr>finditer := (\<lambda>_ _. [])\<rparr>) ''061234567890'' = Inr ''XXXXXXXX7890''"
proof -
  let ?t = "''061234567890''"
  let ?r = "\<lparr>start = 0, end_r = 12, repl = ''PERMIS********''\<rparr>"
  let ?p = "\<lparr>start = 0, end_r = 10, repl = ''XXXXXXXX78''\<rparr>"
  let ?q = "\<lparr>start = 0, end_r = 4, repl = ''0***''\<rparr>"
  let ?d = "[\<lparr>ent_label = ''PER'', ent_text = ''0612'', start_char = 0, end_char = 4\<rparr>]"
  let ?E = "tie_env\<lparr>finditer := (\<lambda>_ _. [])\<rparr>"
  have g: "gather_regex tie_env ?t = Inr [?r]" "gather_phones tie_env ?t = Inr [?p]"
    "nlp tie_env ?t = Inr ?d" "gather_person ?d = [?q]"
    by (simp_all add: tie_env_def gather_eval mask_license_def mask_phone_def mask_eval slice_eval)
  have g': "gather_regex ?E ?t = Inr []" "gather_phones ?E ?t = Inr [?p]"
    "nlp ?E ?t = Inr ?d"
    by (simp_all add: tie_env_def gather_eval mask_phone_def mask_eval slice_eval)
  note i = cross_source_tie_break[OF g, where r = ?r and p = ?p and us = "[]" and vs = "[]"
     and us' = "[]" and q = ?q and vs' = "[]" and p' = ?p]
  note i' = cross_source_tie_break[OF g' g(4), where us' = "[]" and q = ?q and vs' = "[]" and p' = ?p]
  have h1: "?r \<in> set [?r] \<and> start ?r < end_r ?r \<and> [?p] = [] @ ?p # [] \<and> start ?p = start ?r" by simp
  have h2: "?r \<in> set [?r] \<and> start ?r < end_r ?r \<and> [?q] = [] @ ?q # [] \<and> start ?q = start ?r" by simp
  have h3: "?p \<in> set [?p] \<and> start ?p < end_r ?p \<and> [?q] = [] @ ?q # [] \<and> start ?q = start ?p" by simp
  from i h1 have 1: "anonymize_all tie_env ?t = Inr (apply_repls ?t ([?r] @ ([] @ []) @ [?q]))" by blast
  from i h2 have 2: "anonymize_all tie_env ?t = Inr (apply_repls ?t ([?r] @ [?p] @ ([] @ [])))" by blast
  from i' h3 have 3: "anonymize_all ?E ?t = Inr (apply_repls ?t ([] @ [?p] @ ([] @ [])))" by blast
  have "anonymize_all tie_env ?t = Inr ''PERMIS********''"
    unfolding 2 by (simp add: apply_repls_def slice_eval)
  moreover have "anonymize_all ?E ?t = Inr ''XXXXXXXX7890''"
    unfolding 3 by (simp add: apply_repls_def slice_eval)
  ultimately show ?thesis by simp
qed

section \<open>Parsing digits, the Luhn sum, the card and email masks\<close>

lemma isdigit_not_special:
  "isdigit c \<Longrightarrow> \<not> py_isspace c \<and> \<not> is_space c \<and> c \<noteq> CHR ''-'' \<and> c \<noteq> CHR ''+'' \<and> c \<noteq> CHR ''_''"
  by (auto simp: isdigit_def py_isspace_def is_space_def)

lemma parse_digits_all:
  "list_all isdigit ds \<Longrightarrow> b \<or> ds \<noteq> [] \<Longrightarrow>
   parse_digits b acc ds = Inr (foldl (\<lambda>a c. a * 10 + digit_val c) acc ds)"
  by (induction ds arbitrary: b acc) auto

lemma py_int_digits:
  assumes "list_all isdigit ds" "ds \<noteq> []"
  shows "py_int ds = Inr (int (foldl (\<lambda>a c. a * 10 + digit_val c) 0 ds))"
proof -
  obtain c cs where ds: "ds = c # cs" using assms(2) by (cases ds) auto
  have hd: "isdigit c" using assms(1) ds by simp
  have l: "isdigit (last ds)" using assms by (metis last_in_set list_all_iff)
  have 1: "dropWhile py_isspace ds = ds"
    using hd isdigit_not_special unfolding ds by simp
  have 2: "dropWhile py_isspace (rev ds) = rev ds"
    using l assms(2) isdigit_not_special by (cases "rev ds") (auto simp: last_rev)
  have "py_int ds = map_sum id int (parse_digits False 0 ds)"
    using hd isdigit_not_special unfolding py_int_def 1 2 by (simp add: ds)
  then show ?thesis using parse_digits_all[OF assms(1), of False 0] assms(2) by simp
qed

lemma py_int_digit: "isdigit d \<Longrightarrow> py_int [d] = Inr (int (digit_val d))"
  using py_int_digits[of "[d]"] by simp

lemma map_err_digits:
  "list_all isdigit ds \<Longrightarrow> map_err (\<lambda>d. py_int [d]) ds = Inr (map (\<lambda>c. int (digit_val c)) ds)"
  by (induction ds) (auto simp: py_int_digit)

lemma luhn_loop_step: "luhn_loop i (d # ds) acc = luhn_loop (Suc i) ds (acc + luhn_digit i d)"
  by (simp add: luhn_digit_def even_iff_mod_2_eq_zero mult.commute)

lemma luhn_loop_sum:
  "luhn_loop i ds acc = acc + sum_list (map (\<lambda>k. luhn_digit (i + k) (ds ! k)) [0..<length ds])"
proof (induction ds arbitrary: i acc)
  case Nil
  then show ?case by simp
next
  case (Cons d ds)
  have u: "[0..<length (d # ds)] = 0 # map Suc [0..<length ds]"
    by (simp add: upt_conv_Cons map_Suc_upt del: upt_Suc)
  have "sum_list (map (\<lambda>k. luhn_digit (i + k) ((d # ds) ! k)) [0..<length (d # ds)])
      = luhn_digit i d + sum_list (map (\<lambda>k. luhn_digit (Suc i + k) (ds ! k)) [0..<length ds])"
    unfolding u by (simp add: comp_def)
  with Cons.IH[of "Suc i" "acc + luhn_digit i d"] show ?case
    by (simp only: luhn_loop_step)
qed

lemma is_valid_luhn_accepts: "is_valid_luhn s = Inr (luhn_accepts s)"
proof -
  have "list_all isdigit (filter isdigit s)" by (simp add: list_all_iff)
  then have "map_err (\<lambda>d. py_int [d]) (filter isdigit s) = Inr (map (\<lambda>c. int (digit_val c)) (filter isdigit s))"
    by (rule map_err_digits)
  then show ?thesis
    by (simp add: is_valid_luhn_def luhn_accepts_def luhn_total_def luhn_loop_sum rev_map)
qed

lemma mask_card_eq:
  "mask_card x = replicate (length (strip x) - 4) (CHR ''*'') @ drop (length (strip x) - 4) (strip x)"
proof -
  have "nat (int (length (strip x)) - 4) = length (strip x) - 4" by simp
  moreover have "adjust (length (strip x)) (- 4) = length (strip x) - 4"
    by (auto simp: adjust_def)
  ultimately show ?thesis
    by (simp add: mask_card_def Let_def repeat_def slice_from_def)
qed

lemma strip_digits_seps:
  "\<forall>c\<in>set x. isdigit c \<or> is_space c \<or> c = CHR ''-'' \<Longrightarrow> strip x = filter isdigit x"
  unfolding strip_def using isdigit_not_special by (induction x) auto

lemmas luhn_eval = is_valid_luhn_def py_int_def py_isspace_def is_space_def isdigit_def digit_val_def

lemma mask_email_split:
  assumes "CHR ''@'' \<notin> set local"
  shows "mask_email (local @ ''@'' @ domain) =
     Inr ((if length local \<le> 2 then replicate (length local) (CHR ''*'')
           else local ! 0 # replicate (length local - 2) (CHR ''*'') @ [local ! (length local - 1)])
          @ ''@'' @ domain)"
proof -
  have a: "x \<in> set local \<Longrightarrow> x \<noteq> CHR ''@''" for x
    using assms by auto
  have t: "takeWhile (\<lambda>c. c \<noteq> CHR ''@'') (local @ ''@'' @ domain) = local"
    using a by (simp add: takeWhile_append2)
  have d: "dropWhile (\<lambda>c. c \<noteq> CHR ''@'') (local @ ''@'' @ domain) = ''@'' @ domain"
    using a by (simp add: dropWhile_append2)
  have h: "length local > 2 \<Longrightarrow> hd local = local ! 0 \<and> last local = local ! (length local - 1)"
    by (cases local) (auto simp: last_conv_nth)
  have n: "nat (int (length local) - 2) = length local - 2" by simp
  show ?thesis
    unfolding mask_email_def t d Let_def repeat_def n using h by auto
qed

section \<open>The IBAN value\<close>

lemma upt_10_36: "[10..<36] = [10,11,12,13,14,15,16,17,18,19,20,21,22,23,24,25,26,27,28,29,30,31,32,33,34,35::nat]"
  by (simp add: upt_rec)

lemma char_of_letters:
  "map (\<lambda>i. char_of (i + 55)) [10,11,12,13,14,15,16,17,18,19,20,21,22,23,24,25,26,27,28,29,30,31,32,33,34,35::nat]
     = ''ABCDEFGHIJKLMNOPQRSTUVWXYZ''"
  by code_simp

lemma str_nat_letters:
  "map str_nat [10,11,12,13,14,15,16,17,18,19,20,21,22,23,24,25,26,27,28,29,30,31,32,33,34,35::nat] =
  [''10'',''11'',''12'',''13'',''14'',''15'',''16'',''17'',''18'',''19'',''20'',''21'',''22'',''23'',''24'',''25'',
   ''26'',''27'',''28'',''29'',''30'',''31'',''32'',''33'',''34'',''35'']"
  by (simp add: str_nat.simps)

lemma alpha_to_num_table:
  "alpha_to_num = map_of (zip ''ABCDEFGHIJKLMNOPQRSTUVWXYZ''
    [''10'',''11'',''12'',''13'',''14'',''15'',''16'',''17'',''18'',''19'',''20'',''21'',''22'',''23'',''24'',''25'',
     ''26'',''27'',''28'',''29'',''30'',''31'',''32'',''33'',''34'',''35''])"
proof -
  have "map (\<lambda>i. (char_of (i + 55), str_nat i)) [10..<36]
      = zip (map (\<lambda>i. char_of (i + 55)) [10..<36]) (map str_nat [10..<36])"
    by (simp add: zip_map_map)
  then show ?thesis unfolding alpha_to_num_def upt_10_36 char_of_letters str_nat_letters by simp
qed

lemma digit_enc: "isdigit c \<Longrightarrow> alpha_to_num c = None"
proof -
  assume "isdigit c"
  then have "c \<in> set ''0123456789''" by (simp add: isdigit_def)
  then have "c \<notin> set ''ABCDEFGHIJKLMNOPQRSTUVWXYZ''" by auto
  then show ?thesis
    unfolding alpha_to_num_table by (intro map_of_eq_None_iff[THEN iffD2]) simp
qed

lemma iban_step_digit: "isdigit c \<Longrightarrow> iban_step acc c = acc * 10 + digit_val c"
  by (simp add: iban_step_def)

lemma iban_step_letter: "\<not> isdigit c \<Longrightarrow> iban_step acc c = acc * 100 + letter_val c"
  by (simp add: iban_step_def)

lemma letter_enc:
  "is_upper_alpha c \<Longrightarrow>
   \<exists>d1 d2. alpha_to_num c = Some [d1, d2] \<and> isdigit d1 \<and> isdigit d2 \<and> \<not> isdigit c \<and>
      digit_val d1 * 10 + digit_val d2 = letter_val c"
  by (auto simp: is_upper_alpha_def alpha_to_num_table isdigit_def digit_val_def letter_val_def)

lemma numeric_digits:
  "list_all (\<lambda>c. isdigit c \<or> is_upper_alpha c) r \<Longrightarrow>
   list_all isdigit (iban_to_numeric r) \<and>
   foldl (\<lambda>a c. a * 10 + digit_val c) acc (iban_to_numeric r) = foldl iban_step acc r"
proof (induction r arbitrary: acc)
  case Nil
  then show ?case by (simp add: iban_to_numeric_def)
next
  case (Cons c r)
  then have ih: "list_all isdigit (iban_to_numeric r)"
    "\<And>acc. foldl (\<lambda>a c. a * 10 + digit_val c) acc (iban_to_numeric r) = foldl iban_step acc r"
    by auto
  have n: "iban_to_numeric (c # r) = (case alpha_to_num c of Some v \<Rightarrow> v | None \<Rightarrow> [c]) @ iban_to_numeric r"
    by (simp add: iban_to_numeric_def)
  show ?case
  proof (cases "isdigit c")
    case True
    with ih show ?thesis unfolding n by (simp add: digit_enc iban_step_digit)
  next
    case False
    with Cons.prems have "is_upper_alpha c" by simp
    from letter_enc[OF this] obtain d1 d2 where "alpha_to_num c = Some [d1, d2]" "isdigit d1" "isdigit d2"
      "digit_val d1 * 10 + digit_val d2 = letter_val c" by blast
    then have "(acc * 10 + digit_val d1) * 10 + digit_val d2 = iban_step acc c"
      using False by (simp add: iban_step_letter)
    with ih \<open>alpha_to_num c = Some [d1, d2]\<close> \<open>isdigit d1\<close> \<open>isdigit d2\<close>
    show ?thesis unfolding n by simp
  qed
qed

lemma numeric_nonempty: "r \<noteq> [] \<Longrightarrow> list_all (\<lambda>c. isdigit c \<or> is_upper_alpha c) r \<Longrightarrow> iban_to_numeric r \<noteq> []"
proof (cases r)
  case Nil
  then show "r \<noteq> [] \<Longrightarrow> ?thesis" by simp
next
  case (Cons c cs)
  assume "list_all (\<lambda>c. isdigit c \<or> is_upper_alpha c) r"
  with Cons have "isdigit c \<or> is_upper_alpha c" by simp
  then show ?thesis unfolding Cons using letter_enc[of c] digit_enc[of c]
    by (auto simp: iban_to_numeric_def)
qed

lemma py_int_numeric:
  assumes "r \<noteq> []" "list_all (\<lambda>c. isdigit c \<or> is_upper_alpha c) r"
  shows "py_int (iban_to_numeric r) = Inr (int (iban_value r))"
  using py_int_digits[OF conjunct1[OF numeric_digits[OF assms(2)]] numeric_nonempty[OF assms]]
    conjunct2[OF numeric_digits[OF assms(2), of 0]]
  by (simp add: iban_value_def)

lemma upper_char_alnum: "is_alnum c \<Longrightarrow> isdigit (upper_char c) \<or> is_upper_alpha (upper_char c)"
  by (auto simp: is_alnum_def isdigit_def is_upper_alpha_def upper_char_def)

lemma upper_alnum: "list_all is_alnum s \<Longrightarrow> list_all (\<lambda>c. isdigit c \<or> is_upper_alpha c) (upper s)"
  by (induction s) (auto simp: upper_def upper_char_alnum)

lemma rearr_27:
  "length raw = 27 \<Longrightarrow> slice_from raw 4 @ slice_to raw 4 = drop 4 raw @ take 4 raw"
  by (simp add: slice_from_def slice_to_def adjust_def)

lemma iban_accepts_raw:
  "iban_accepts s =
     (let raw = upper (strip s) in
      prefix ''FR'' raw \<and> length raw = 27 \<and>
      list_all (\<lambda>c. isdigit c \<or> is_upper_alpha c) raw \<and>
      iban_value (drop 4 raw @ take 4 raw) mod 97 = 1)"
  by (simp add: iban_accepts_def strip_def upper_def de_Morgan_disj)

lemma is_valid_iban_accepts:
  assumes "list_all is_alnum (strip s)"
  shows "is_valid_iban s = Inr (iban_accepts s)"
proof (cases "prefix ''FR'' (upper (strip s)) \<and> length (upper (strip s)) = 27")
  case False
  then show ?thesis by (auto simp: is_valid_iban_def iban_accepts_raw Let_def)
next
  case True
  let ?raw = "upper (strip s)"
  let ?r = "drop 4 ?raw @ take 4 ?raw"
  have al: "list_all (\<lambda>c. isdigit c \<or> is_upper_alpha c) ?raw" using assms by (rule upper_alnum)
  then have "list_all (\<lambda>c. isdigit c \<or> is_upper_alpha c) ?r"
    by (auto simp: list_all_iff dest: in_set_dropD in_set_takeD)
  moreover have "?r \<noteq> []" using True by auto
  ultimately have "py_int (iban_to_numeric ?r) = Inr (int (iban_value ?r))"
    by (intro py_int_numeric)
  moreover have "int (iban_value ?r) mod 97 = int (iban_value ?r mod 97)"
    by (simp add: of_nat_mod)
  then have "(int (iban_value ?r) mod 97 = 1) = (iban_value ?r mod 97 = 1)"
    by simp
  ultimately show ?thesis
    using True al by (simp add: is_valid_iban_def iban_accepts_raw Let_def rearr_27)
qed

section \<open>Changing one digit of an IBAN\<close>

lemma iban_step_shift: "iban_step acc c = acc * 10 ^ (if isdigit c then 1 else 2) + iban_step 0 c"
  by (simp add: iban_step_def)

lemma iban_fold_shift:
  "foldl iban_step acc zs = acc * 10 ^ numeric_width zs + foldl iban_step 0 zs"
proof (induction zs arbitrary: acc)
  case Nil
  then show ?case by (simp add: numeric_width_def)
next
  case (Cons c zs)
  have w: "numeric_width (c # zs) = (if isdigit c then 1 else 2) + numeric_width zs"
    by (simp add: numeric_width_def)
  have "foldl iban_step acc (c # zs) = iban_step acc c * 10 ^ numeric_width zs + foldl iban_step 0 zs"
    using Cons.IH[of "iban_step acc c"] by simp
  also have "\<dots> = acc * 10 ^ numeric_width (c # zs) + (iban_step 0 c * 10 ^ numeric_width zs + foldl iban_step 0 zs)"
    unfolding w by (subst iban_step_shift) (simp add: algebra_simps power_add)
  also have "iban_step 0 c * 10 ^ numeric_width zs + foldl iban_step 0 zs = foldl iban_step 0 (c # zs)"
    using Cons.IH[of "iban_step 0 c"] by simp
  finally show ?case .
qed

lemma iban_value_split:
  "isdigit c \<Longrightarrow> iban_value (xs @ c # ys) =
     (iban_value xs * 10 + digit_val c) * 10 ^ numeric_width ys + iban_value ys"
  unfolding iban_value_def
  by (simp add: iban_step_digit iban_fold_shift[of "foldl iban_step 0 xs * 10 + digit_val c" ys])

lemma coprime_97_10: "coprime (97::int) 10"
proof (rule coprimeI)
  fix c :: int
  assume "c dvd 97" "c dvd 10"
  then have "c dvd 97 * 3 - 10 * 29" by (intro dvd_diff dvd_mult2)
  then show "is_unit c" by simp
qed

lemma digit_val_less: "isdigit c \<Longrightarrow> digit_val c < 10"
  by (auto simp: isdigit_def digit_val_def)

lemma digit_val_inj: "isdigit c \<Longrightarrow> isdigit c' \<Longrightarrow> digit_val c = digit_val c' \<Longrightarrow> c = c'"
proof -
  assume a: "isdigit c" "isdigit c'" "digit_val c = digit_val c'"
  have "isdigit x \<Longrightarrow> (48::nat) \<le> of_char x" for x
    by (auto simp: isdigit_def)
  with a have "(of_char c :: nat) = of_char c'" unfolding digit_val_def
    by (metis le_add_diff_inverse)
  then show ?thesis by simp
qed

lemma alter_digit:
  assumes "isdigit c" "isdigit c'" "c \<noteq> c'"
  shows "iban_value (xs @ c # ys) mod 97 \<noteq> iban_value (xs @ c' # ys) mod 97"
proof
  let ?P = "10 ^ numeric_width ys :: int"
  let ?a = "int (digit_val c)" and ?b = "int (digit_val c')"
  assume "iban_value (xs @ c # ys) mod 97 = iban_value (xs @ c' # ys) mod 97"
  then have "int (iban_value (xs @ c # ys)) mod 97 = int (iban_value (xs @ c' # ys)) mod 97"
    by (metis of_nat_mod of_nat_numeral)
  then have "(97::int) dvd int (iban_value (xs @ c # ys)) - int (iban_value (xs @ c' # ys))"
    by (simp add: mod_eq_dvd_iff)
  moreover have "int (iban_value (xs @ c # ys)) - int (iban_value (xs @ c' # ys)) = (?a - ?b) * ?P"
    by (simp add: iban_value_split assms algebra_simps)
  ultimately have "(97::int) dvd (?a - ?b) * ?P" by simp
  moreover have "coprime (97::int) ?P" using coprime_97_10 by simp
  ultimately have d: "(97::int) dvd ?a - ?b" by (simp add: coprime_dvd_mult_left_iff)
  have ne: "?a - ?b \<noteq> 0" using assms digit_val_inj by auto
  have "\<bar>?a - ?b\<bar> < 10" using digit_val_less[OF assms(1)] digit_val_less[OF assms(2)] by linarith
  moreover have "\<bar>97::int\<bar> \<le> \<bar>?a - ?b\<bar>" using d ne by (rule dvd_imp_le_int[rotated])
  ultimately show False by simp
qed

lemma rot_update:
  assumes "i < length s" "4 \<le> length s"
  shows "\<exists>xs ys. drop 4 s @ take 4 s = xs @ (s ! i) # ys \<and>
                 drop 4 (s[i := d]) @ take 4 (s[i := d]) = xs @ d # ys"
proof (cases "i < 4")
  case True
  have i: "i < length (take 4 s)" using True assms by simp
  have 1: "take 4 s = take i (take 4 s) @ (s ! i) # drop (Suc i) (take 4 s)"
    using id_take_nth_drop[OF i] True by simp
  have 2: "take 4 (s[i := d]) = take i (take 4 s) @ d # drop (Suc i) (take 4 s)"
    using upd_conv_take_nth_drop[OF i, of d] True by (simp add: take_update_swap)
  have 3: "drop 4 (s[i := d]) = drop 4 s" using True by simp
  have "drop 4 s @ take 4 s = (drop 4 s @ take i (take 4 s)) @ (s ! i) # drop (Suc i) (take 4 s)"
    using 1 by simp
  moreover have "drop 4 (s[i := d]) @ take 4 (s[i := d]) = (drop 4 s @ take i (take 4 s)) @ d # drop (Suc i) (take 4 s)"
    using 2 3 by simp
  ultimately show ?thesis by blast
next
  case False
  have i: "i - 4 < length (drop 4 s)" using False assms by simp
  have n: "drop 4 s ! (i - 4) = s ! i" using False assms by simp
  have 1: "drop 4 s = take (i - 4) (drop 4 s) @ (s ! i) # drop (Suc (i - 4)) (drop 4 s)"
    using id_take_nth_drop[OF i] n by simp
  have 2: "drop 4 (s[i := d]) = take (i - 4) (drop 4 s) @ d # drop (Suc (i - 4)) (drop 4 s)"
    using upd_conv_take_nth_drop[OF i, of d] False by (simp add: drop_update_swap)
  have 3: "take 4 (s[i := d]) = take 4 s" using False by simp
  have "drop 4 s @ take 4 s = take (i - 4) (drop 4 s) @ (s ! i) # (drop (Suc (i - 4)) (drop 4 s) @ take 4 s)"
    using 1 by simp
  moreover have "drop 4 (s[i := d]) @ take 4 (s[i := d]) = take (i - 4) (drop 4 s) @ d # (drop (Suc (i - 4)) (drop 4 s) @ take 4 s)"
    using 2 3 by simp
  ultimately show ?thesis by blast
qed

lemma upper_char_other:
  "c \<notin> set ''abcdefghijklmnopqrstuvwxyz'' \<Longrightarrow> upper_char c = c"
proof -
  assume "c \<notin> set ''abcdefghijklmnopqrstuvwxyz''"
  then have "map_of (zip ''abcdefghijklmnopqrstuvwxyz'' ''ABCDEFGHIJKLMNOPQRSTUVWXYZ'') c = None"
    by (intro map_of_eq_None_iff[THEN iffD2]) simp
  then show ?thesis by (simp add: upper_char_def)
qed

lemma upper_alpha_not_sep: "is_upper_alpha c \<Longrightarrow> \<not> is_space c \<and> c \<noteq> CHR ''-'' \<and> upper_char c = c"
proof -
  assume "is_upper_alpha c"
  then have m: "c \<in> set ''ABCDEFGHIJKLMNOPQRSTUVWXYZ''" by (simp add: is_upper_alpha_def)
  then have "c \<notin> set ''abcdefghijklmnopqrstuvwxyz''" by auto
  then have "upper_char c = c" by (rule upper_char_other)
  moreover from m have "\<not> is_space c \<and> c \<noteq> CHR ''-''" by (auto simp: is_space_def)
  ultimately show ?thesis by simp
qed

lemma digit_upper: "isdigit c \<Longrightarrow> upper_char c = c"
proof -
  assume "isdigit c"
  then have "c \<in> set ''0123456789''" by (simp add: isdigit_def)
  then have "c \<notin> set ''abcdefghijklmnopqrstuvwxyz''" by auto
  then show ?thesis by (rule upper_char_other)
qed

lemma plain_strip_upper:
  "list_all (\<lambda>c. isdigit c \<or> is_upper_alpha c) s \<Longrightarrow> strip s = s \<and> upper s = s"
proof (induction s)
  case Nil
  then show ?case by (simp add: strip_def upper_def)
next
  case (Cons c s)
  then have "\<not> is_space c \<and> c \<noteq> CHR ''-'' \<and> upper_char c = c"
    using upper_alpha_not_sep[of c] isdigit_not_special[of c] digit_upper[of c] by auto
  with Cons show ?case by (simp add: strip_def upper_def)
qed

lemma alter_digit_invalid:
  assumes al: "list_all (\<lambda>c. isdigit c \<or> is_upper_alpha c) s"
    and ok: "is_valid_iban s = Inr True"
    and i: "i < length s" "isdigit (s ! i)" and d: "isdigit d" "d \<noteq> s ! i"
  shows "is_valid_iban (s[i := d]) = Inr False"
proof -
  let ?s' = "s[i := d]"
  have al': "list_all (\<lambda>c. isdigit c \<or> is_upper_alpha c) ?s'"
    using al d(1) by (auto simp: list_all_iff dest!: set_update_subset_insert[THEN subsetD])
  have a: "list_all is_alnum (strip s)" "list_all is_alnum (strip ?s')"
    using al al' plain_strip_upper[of s] plain_strip_upper[of ?s']
    by (auto simp: list_all_iff is_alnum_def)
  from ok is_valid_iban_accepts[OF a(1)] have acc: "iban_accepts s" by simp
  then have len: "length s = 27" and v: "iban_value (drop 4 s @ take 4 s) mod 97 = 1"
    using plain_strip_upper[OF al] by (simp_all add: iban_accepts_raw Let_def)
  from len i(1) obtain xs ys where r: "drop 4 s @ take 4 s = xs @ (s ! i) # ys"
      "drop 4 ?s' @ take 4 ?s' = xs @ d # ys"
    using rot_update[of i s d] by auto
  have "iban_value (xs @ d # ys) mod 97 \<noteq> iban_value (xs @ (s ! i) # ys) mod 97"
    using d i(2) by (intro alter_digit) auto
  with v r have "\<not> iban_accepts ?s'"
    using plain_strip_upper[OF al'] by (simp add: iban_accepts_raw Let_def)
  with is_valid_iban_accepts[OF a(2)] show ?thesis by simp
qed

lemmas iban_eval = is_valid_iban_def upper_def upper_char_def strip_def is_space_def slice_from_def slice_to_def adjust_def
     iban_to_numeric_def alpha_to_num_table py_int_def py_isspace_def isdigit_def digit_val_def

lemma example_iban_valid: "is_valid_iban ''FR7630006000011234567890189'' = Inr True"
  by (simp add: iban_eval)

lemma example_iban_plain: "list_all (\<lambda>c. isdigit c \<or> is_upper_alpha c) ''FR7630006000011234567890189''"
  by (simp add: isdigit_def is_upper_alpha_def)

section \<open>Validation and masking\<close>

lemma is_valid_nir_accepts: "is_valid_nir s = Inr (nir_accepts s)"
proof (cases "length (strip s) = 15 \<and> list_all isdigit (strip s)")
  case False
  then show ?thesis by (auto simp: is_valid_nir_def nir_accepts_def str_isdigit_def Let_def)
next
  case True
  let ?num = "strip s"
  have s: "slice_from ?num (- 2) = drop 13 ?num" "slice_to ?num (- 2) = take 13 ?num"
    using True by (simp_all add: slice_from_def slice_to_def adjust_def)
  have d: "list_all isdigit (drop 13 ?num)" "list_all isdigit (take 13 ?num)"
    using True by (auto simp: list_all_iff dest: in_set_dropD in_set_takeD)
  have ne: "drop 13 ?num \<noteq> []" "take 13 ?num \<noteq> []" "?num \<noteq> []" using True by auto
  have "py_int (drop 13 ?num) = Inr (int (decimal_value (drop 13 ?num)))"
    "py_int (take 13 ?num) = Inr (int (decimal_value (take 13 ?num)))"
    unfolding decimal_value_def using d ne by (simp_all add: py_int_digits)
  then show ?thesis
    using True ne(3) by (simp add: is_valid_nir_def nir_accepts_def str_isdigit_def Let_def s)
qed

lemma luhn_digits_only: "is_valid_luhn s = is_valid_luhn (filter isdigit s)"
  by (simp add: is_valid_luhn_accepts luhn_accepts_def)

lemma iban_wrong_shape:
  "\<not> prefix ''FR'' (upper (strip s)) \<or> length (strip s) \<noteq> 27 \<Longrightarrow> is_valid_iban s = Inr False"
  by (auto simp: is_valid_iban_def Let_def upper_def)

text \<open>
  A 27-character input that starts with \<open>FR\<close> and holds other characters than letters
  and digits makes the IBAN validator raise, and the Luhn validator accepts an input
  without any digit.
\<close>

theorem validators_fail_closed_counterexample:
  "is_valid_iban ''FR!!!!!!!!!!!!!!!!!!!!!!!!!'' = Inl ValueError \<and> is_valid_luhn ''abc'' = Inr True"
  by (simp add: iban_eval is_valid_luhn_def)

text \<open>
  Claim C3, as the code has it. On ASCII input the national-ID validator fails
  closed: it never raises and returns false unless the stripped input is exactly 15
  digits. The Luhn validator never raises; it looks at the digits only, so other
  characters are ignored and there is no length check. The IBAN validator returns
  false when the stripped, upper-cased input does not start with \<open>FR\<close> or is not 27
  characters long, and never raises when the stripped input consists of letters and
  digits.
\<close>

theorem validators_on_malformed_input:
  "(ascii_text s \<longrightarrow>
      is_valid_nir s = Inr (nir_accepts s) \<and>
      (length (strip s) \<noteq> 15 \<or> \<not> list_all isdigit (strip s) \<longrightarrow> is_valid_nir s = Inr False))
   \<and> (ascii_text s \<longrightarrow>
      is_valid_luhn s = Inr (luhn_accepts s) \<and> is_valid_luhn s = is_valid_luhn (filter isdigit s))
   \<and> (ascii_text s \<longrightarrow>
      (\<not> prefix ''FR'' (upper (strip s)) \<or> length (strip s) \<noteq> 27 \<longrightarrow> is_valid_iban s = Inr False))
   \<and> (list_all is_alnum (strip s) \<longrightarrow> (\<exists>b. is_valid_iban s = Inr b))"
proof (intro conjI impI)
  show "is_valid_nir s = Inr (nir_accepts s)" by (rule is_valid_nir_accepts)
  show "is_valid_nir s = Inr False" if "length (strip s) \<noteq> 15 \<or> \<not> list_all isdigit (strip s)"
    using that by (auto simp: is_valid_nir_accepts nir_accepts_def Let_def)
  show "is_valid_luhn s = Inr (luhn_accepts s)" by (rule is_valid_luhn_accepts)
  show "is_valid_luhn s = is_valid_luhn (filter isdigit s)" by (rule luhn_digits_only)
  show "is_valid_iban s = Inr False" if "\<not> prefix ''FR'' (upper (strip s)) \<or> length (strip s) \<noteq> 27"
    using that by (rule iban_wrong_shape)
  show "\<exists>b. is_valid_iban s = Inr b" if "list_all is_alnum (strip s)"
    using is_valid_iban_accepts[OF that] by blast
qed

theorem validators_on_malformed_input_witness:
  "is_valid_nir ''12 ab'' = Inr False \<and> is_valid_luhn ''a0b'' = is_valid_luhn ''0''
   \<and> is_valid_iban ''DE7630006000011234567890189'' = Inr False
   \<and> (\<exists>b. is_valid_iban ''FR76 3000'' = Inr b)"
proof -
  have a: "ascii_text ''12 ab''" "ascii_text ''a0b''" "ascii_text ''DE7630006000011234567890189''"
    by (simp_all add: ascii_text_def)
  have n: "length (strip ''12 ab'') \<noteq> 15 \<or> \<not> list_all isdigit (strip ''12 ab'')"
    by (simp add: strip_def is_space_def)
  have f: "filter isdigit ''a0b'' = ''0''" by (simp add: isdigit_def)
  have p: "\<not> prefix ''FR'' (upper (strip ''DE7630006000011234567890189'')) \<or>
      length (strip ''DE7630006000011234567890189'') \<noteq> 27"
    by (simp add: strip_def is_space_def upper_def upper_char_def)
  have l: "list_all is_alnum (strip ''FR76 3000'')"
    by (simp add: strip_def is_space_def is_alnum_def isdigit_def is_upper_alpha_def)
  from validators_on_malformed_input[of "''12 ab''"] a(1) n
  have 1: "is_valid_nir ''12 ab'' = Inr False" by blast
  from validators_on_malformed_input[of "''a0b''"] a(2)
  have 2: "is_valid_luhn ''a0b'' = is_valid_luhn (filter isdigit ''a0b'')" by blast
  from validators_on_malformed_input[of "''DE7630006000011234567890189''"] a(3) p
  have 3: "is_valid_iban ''DE7630006000011234567890189'' = Inr False" by blast
  from validators_on_malformed_input[of "''FR76 3000''"] l
  have 4: "\<exists>b. is_valid_iban ''FR76 3000'' = Inr b" by blast
  from 1 2 3 4 show ?thesis unfolding f by simp
qed

text \<open>
  With an underscore between two digits the number that \<open>int\<close> reads is 1 modulo 97
  and the validator accepts, although the stripped input is not made of letters and
  digits.
\<close>

theorem iban_validation_counterexample:
  "is_valid_iban ''FR133_000600001123456789018'' = Inr True
   \<and> \<not> iban_accepts ''FR133_000600001123456789018''"
proof
  show "is_valid_iban ''FR133_000600001123456789018'' = Inr True"
    by (simp add: iban_eval)
  show "\<not> iban_accepts ''FR133_000600001123456789018''"
    by (simp add: iban_accepts_def is_space_def upper_char_def isdigit_def is_upper_alpha_def)
qed

text \<open>
  Claim C5, as the code has it. For an input made of letters, digits, whitespace and
  dashes, the IBAN validator accepts exactly when the input, without its whitespace and
  dashes and in capitals, starts with \<open>FR\<close>, has 27 characters, and the number read from
  it after moving the first four characters to the end, letters as \<open>A = 10\<close> to
  \<open>Z = 35\<close>, is 1 modulo 97; every input that meets this condition is accepted.
  \<open>FR7630006000011234567890189\<close> is accepted, also when written with spaces, or in
  small letters with dashes; \<open>_mask_iban\<close> applied to it keeps its last four characters;
  and replacing any one of its digits by another digit makes the validator reject.
\<close>

theorem iban_validation:
  "((\<forall>c\<in>set s. is_alnum c \<or> is_space c \<or> c = CHR ''-'') \<longrightarrow> is_valid_iban s = Inr (iban_accepts s))
   \<and> (iban_accepts s \<longrightarrow> is_valid_iban s = Inr True)
   \<and> is_valid_iban ''FR7630006000011234567890189'' = Inr True
   \<and> is_valid_iban ''FR76 3000 6000 0112 3456 7890 189'' = Inr True
   \<and> is_valid_iban ''fr76-3000-6000-0112-3456-7890-189'' = Inr True
   \<and> mask_iban ''FR7630006000011234567890189'' = ''FR************0189''
   \<and> (i < 27 \<and> isdigit (''FR7630006000011234567890189'' ! i) \<and> isdigit d \<and>
       d \<noteq> ''FR7630006000011234567890189'' ! i \<longrightarrow>
        is_valid_iban (''FR7630006000011234567890189''[i := d]) = Inr False)"
proof (intro conjI impI)
  show "is_valid_iban s = Inr (iban_accepts s)" if "\<forall>c\<in>set s. is_alnum c \<or> is_space c \<or> c = CHR ''-''"
  proof -
    from that have "list_all is_alnum (strip s)" by (auto simp: strip_def list_all_iff)
    then show ?thesis by (rule is_valid_iban_accepts)
  qed
  show "is_valid_iban s = Inr True" if "iban_accepts s"
  proof -
    from that have "list_all (\<lambda>c. isdigit c \<or> is_upper_alpha c) (upper (strip s))"
      by (simp add: iban_accepts_raw Let_def)
    then have "list_all is_alnum (strip s)"
      unfolding upper_def list_all_iff
    proof (intro ballI)
      fix c assume u: "\<forall>x\<in>set (map upper_char (strip s)). isdigit x \<or> is_upper_alpha x" and c: "c \<in> set (strip s)"
      then have 1: "isdigit (upper_char c) \<or> is_upper_alpha (upper_char c)" by auto
      show "is_alnum c"
      proof (cases "c \<in> set ''abcdefghijklmnopqrstuvwxyz''")
        case True
        then show ?thesis by (simp add: is_alnum_def)
      next
        case False
        then have "upper_char c = c" by (rule upper_char_other)
        with 1 have "isdigit c \<or> is_upper_alpha c" by simp
        then show ?thesis unfolding is_alnum_def by blast
      qed
    qed
    from is_valid_iban_accepts[OF this] that show ?thesis by simp
  qed
  show "is_valid_iban ''FR7630006000011234567890189'' = Inr True" by (rule example_iban_valid)
  show "is_valid_iban ''FR76 3000 6000 0112 3456 7890 189'' = Inr True" by (simp add: iban_eval)
  show "is_valid_iban ''fr76-3000-6000-0112-3456-7890-189'' = Inr True" by (simp add: iban_eval)
  show "mask_iban ''FR7630006000011234567890189'' = ''FR************0189''"
    by (simp add: mask_iban_def mask_eval slice_eval)
  show "is_valid_iban (''FR7630006000011234567890189''[i := d]) = Inr False"
    if "i < 27 \<and> isdigit (''FR7630006000011234567890189'' ! i) \<and> isdigit d \<and>
       d \<noteq> ''FR7630006000011234567890189'' ! i"
    using that by (intro alter_digit_invalid[OF example_iban_plain example_iban_valid]) simp_all
qed

lemmas accepts_eval = iban_accepts_def iban_value_def iban_step_def is_space_def upper_char_def
  isdigit_def is_upper_alpha_def digit_val_def letter_val_def

theorem iban_validation_witness:
  "iban_accepts ''FR76 3000 6000 0112 3456 7890 189''
   \<and> is_valid_iban ''FR76 3000 6000 0112 3456 7890 189'' = Inr (iban_accepts ''FR76 3000 6000 0112 3456 7890 189'')
   \<and> is_valid_iban ''FR7630096000011234567890189'' = Inr False"
proof -
  let ?s = "''FR76 3000 6000 0112 3456 7890 189''"
  have l: "\<forall>c\<in>set ?s. is_alnum c \<or> is_space c \<or> c = CHR ''-''"
    by (simp add: is_space_def is_alnum_def isdigit_def is_upper_alpha_def)
  have acc: "iban_accepts ?s" by (simp add: accepts_eval)
  have h: "7 < (27::nat) \<and> isdigit (''FR7630006000011234567890189'' ! 7) \<and> isdigit (CHR ''9'') \<and>
       CHR ''9'' \<noteq> ''FR7630006000011234567890189'' ! 7"
    by (simp add: isdigit_def)
  have u: "''FR7630006000011234567890189''[7 := CHR ''9''] = ''FR7630096000011234567890189''"
    by (simp add: numeral_eq_Suc)
  from iban_validation[of ?s] l
  have 1: "is_valid_iban ?s = Inr (iban_accepts ?s)" by blast
  from iban_validation[of ?s] acc
  have 2: "is_valid_iban ?s = Inr True" by blast
  from iban_validation[of _ 7 "CHR ''9''"] h
  have "is_valid_iban (''FR7630006000011234567890189''[7 := CHR ''9'']) = Inr False" by blast
  with 1 2 acc show ?thesis unfolding u by simp
qed

text \<open>
  Claim C6. On ASCII input the card validator accepts exactly when the Luhn sum of the
  digits is divisible by 10. The card mask of digits with separators keeps the last
  four digits and replaces every digit before them by \<open>*\<close>.
  \<open>4539148803436467\<close> is valid and masked to \<open>************6467\<close>;
  \<open>4539148803436468\<close> is invalid, the card rule yields no span for it and the text
  stays as it is.
\<close>

theorem luhn_and_card_mask:
  "(ascii_text s \<longrightarrow> is_valid_luhn s = Inr (luhn_accepts s))
   \<and> ((\<forall>c\<in>set x. isdigit c \<or> is_space c \<or> c = CHR ''-'') \<longrightarrow>
        mask_card x = replicate (length (filter isdigit x) - 4) (CHR ''*'') @
                      drop (length (filter isdigit x) - 4) (filter isdigit x))
   \<and> is_valid_luhn ''4539148803436467'' = Inr True
   \<and> mask_card ''4539148803436467'' = ''************6467''
   \<and> anonymize_all card_env ''4539148803436467'' = Inr ''************6467''
   \<and> is_valid_luhn ''4539148803436468'' = Inr False
   \<and> gather_regex card_env ''4539148803436468'' = Inr []
   \<and> anonymize_all card_env ''4539148803436468'' = Inr ''4539148803436468''"
proof (intro conjI impI)
  show "is_valid_luhn s = Inr (luhn_accepts s)" by (rule is_valid_luhn_accepts)
  show "mask_card x = replicate (length (filter isdigit x) - 4) (CHR ''*'') @
                      drop (length (filter isdigit x) - 4) (filter isdigit x)"
    if "\<forall>c\<in>set x. isdigit c \<or> is_space c \<or> c = CHR ''-''"
    using strip_digits_seps[OF that] mask_card_eq[of x] by simp
  show v: "is_valid_luhn ''4539148803436467'' = Inr True" by (simp add: luhn_eval)
  show m: "mask_card ''4539148803436467'' = ''************6467''"
    by (simp add: mask_card_def mask_eval slice_eval)
  show w: "is_valid_luhn ''4539148803436468'' = Inr False" by (simp add: luhn_eval)
  have s: "slice ''4539148803436467'' 0 16 = ''4539148803436467''"
    "slice ''4539148803436468'' 0 16 = ''4539148803436468''"
    by (simp_all add: slice_eval)
  show g: "gather_regex card_env ''4539148803436468'' = Inr []"
    by (simp add: card_env_def quiet_env_def gather_regex_def PATTERNS_def s w)
  have g': "gather_regex card_env ''4539148803436467'' = Inr [\<lparr>start = 0, end_r = 16, repl = ''************6467''\<rparr>]"
    by (simp add: card_env_def quiet_env_def gather_regex_def PATTERNS_def s v m)
  have o: "gather_phones card_env t = Inr []" "nlp card_env t = Inr []" for t
    by (simp_all add: card_env_def quiet_env_def gather_phones_def)
  show "anonymize_all card_env ''4539148803436467'' = Inr ''************6467''"
    by (simp add: anonymize_all_def g' o gather_person_def apply_repls_def slice_eval)
  show "anonymize_all card_env ''4539148803436468'' = Inr ''4539148803436468''"
    by (simp add: anonymize_all_def g o gather_person_def apply_repls_def)
qed

theorem luhn_and_card_mask_witness:
  "is_valid_luhn ''4539 1488 0343 6467'' = Inr (luhn_accepts ''4539 1488 0343 6467'')
   \<and> mask_card ''4539-1488-0343-6467'' = ''************6467''"
proof -
  have a: "ascii_text ''4539 1488 0343 6467''" by (simp add: ascii_text_def)
  have c: "\<forall>c\<in>set ''4539-1488-0343-6467''. isdigit c \<or> is_space c \<or> c = CHR ''-''"
    by (simp add: isdigit_def)
  have f: "filter isdigit ''4539-1488-0343-6467'' = ''4539148803436467''"
    by (simp add: isdigit_def)
  from luhn_and_card_mask[of "''4539 1488 0343 6467''" "''4539-1488-0343-6467''"] a
  have 1: "is_valid_luhn ''4539 1488 0343 6467'' = Inr (luhn_accepts ''4539 1488 0343 6467'')" by blast
  from luhn_and_card_mask[of "''4539 1488 0343 6467''" "''4539-1488-0343-6467''"] c
  have "mask_card ''4539-1488-0343-6467'' =
      replicate (length (filter isdigit ''4539-1488-0343-6467'') - 4) (CHR ''*'') @
         drop (length (filter isdigit ''4539-1488-0343-6467'') - 4) (filter isdigit ''4539-1488-0343-6467'')"
    by blast
  then have "mask_card ''4539-1488-0343-6467'' = ''************6467''"
    unfolding f by (simp add: replicate_numeral)
  with 1 show ?thesis by simp
qed

text \<open>
  Claim C8. For an address whose local part is what precedes the first \<open>@\<close>, the mask
  keeps the first and the last character of the local part, writes \<open>*\<close> for each one in
  between, and keeps the domain; a local part of at most two characters is masked
  entirely. \<open>jo@x.com\<close> becomes \<open>**@x.com\<close> and \<open>john.doe@example.com\<close> becomes
  \<open>j******e@example.com\<close>.
\<close>

theorem email_masking:
  "(CHR ''@'' \<notin> set local \<longrightarrow>
      mask_email (local @ ''@'' @ domain) =
        Inr ((if length local \<le> 2 then replicate (length local) (CHR ''*'')
              else local ! 0 # replicate (length local - 2) (CHR ''*'') @ [local ! (length local - 1)])
             @ ''@'' @ domain))
   \<and> mask_email ''jo@x.com'' = Inr ''**@x.com''
   \<and> mask_email ''john.doe@example.com'' = Inr ''j******e@example.com''"
proof (intro conjI impI)
  show "mask_email (local @ ''@'' @ domain) =
        Inr ((if length local \<le> 2 then replicate (length local) (CHR ''*'')
              else local ! 0 # replicate (length local - 2) (CHR ''*'') @ [local ! (length local - 1)])
             @ ''@'' @ domain)" if "CHR ''@'' \<notin> set local"
    using that by (rule mask_email_split)
  show "mask_email ''jo@x.com'' = Inr ''**@x.com''" by (simp add: mask_email_def mask_eval)
  show "mask_email ''john.doe@example.com'' = Inr ''j******e@example.com''"
    by (simp add: mask_email_def mask_eval)
qed

theorem email_masking_witness:
  "mask_email ''a.b@c.org'' = Inr ''a*b@c.org''"
proof -
  have h: "CHR ''@'' \<notin> set ''a.b''" by simp
  from email_masking[of "''a.b''" "''c.org''"] h
  have "mask_email (''a.b'' @ ''@'' @ ''c.org'') =
        Inr ((if length ''a.b'' \<le> 2 then replicate (length ''a.b'') (CHR ''*'')
              else ''a.b'' ! 0 # replicate (length ''a.b'' - 2) (CHR ''*'') @ [''a.b'' ! (length ''a.b'' - 1)])
             @ ''@'' @ ''c.org'')"
    by blast
  then show ?thesis by simp
qed

end
